theory Spec2Isabelle
  imports Complex_Main "HOL-Library.Multiset" "HOL-Library.AList"
begin

text \<open>
  \<open>app.js\<close> shows the fallas of a catalog as markers on a map, keeps for each falla
  whether it was visited and two ratings in \<open>localStorage\<close>, filters the catalog by
  section, text and status, and builds a walking route over the visible fallas under a
  distance budget. This theory embeds the functions that decide that behaviour and proves
  what the specification says of them.
\<close>

section \<open>JavaScript numbers\<close>

text \<open>
  A JavaScript number is an IEEE double: NaN, one of the two infinities, or a finite
  value. The finite doubles are a subset of the reals, so the model takes every real as a
  finite value; what is proved for all of them holds for the doubles. Comparisons of
  doubles are exact, and every comparison with NaN is false.
\<close>

datatype jsnum = NaN | NegInf | Fin real | PosInf

fun js_lt :: "jsnum \<Rightarrow> jsnum \<Rightarrow> bool" where
  "js_lt (Fin a) (Fin b) = (a < b)"
| "js_lt (Fin a) PosInf = True"
| "js_lt NegInf (Fin b) = True"
| "js_lt NegInf PosInf = True"
| "js_lt _ _ = False"

definition js_gt :: "jsnum \<Rightarrow> jsnum \<Rightarrow> bool" where
  "js_gt a b = js_lt b a"

fun js_le :: "jsnum \<Rightarrow> jsnum \<Rightarrow> bool" where
  "js_le NaN _ = False"
| "js_le _ NaN = False"
| "js_le a b = (a = b \<or> js_lt a b)"

text \<open>\<open>Number.isFinite\<close> on a number.\<close>

fun isFinite :: "jsnum \<Rightarrow> bool" where
  "isFinite (Fin _) = True"
| "isFinite _ = False"

section \<open>JavaScript values\<close>

text \<open>
  The values the program reads from JSON and from the page: what \<open>JSON.parse\<close> gives, and
  \<open>undefined\<close> for a property or an element that is not there. An object is the list of
  its own properties, in order; a key is looked up from the front. A string is a list of
  characters: the program compares, joins and searches strings, and nothing proved here
  depends on the alphabet.
\<close>

datatype jsval =
    JUndefined
  | JNull
  | JBool bool
  | JNum jsnum
  | JStr string
  | JArr "jsval list"
  | JObj "(string \<times> jsval) list"

datatype js_error = TypeError | LoadError

text \<open>
  The conversions of the platform that the model cannot compute: the text of a finite
  number (\<open>Number::toString\<close>), the number a text denotes (\<open>StringToNumber\<close>, NaN when
  it denotes none), and the three Unicode operations of \<open>normalize\<close>. The program is
  verified for every such platform.
\<close>

record platform =
  num_str :: "real \<Rightarrow> string"
  str_num :: "string \<Rightarrow> jsnum"
  toLowerCase :: "string \<Rightarrow> string"
  nfd :: "string \<Rightarrow> string"
  stripDiacritics :: "string \<Rightarrow> string"

fun js_join :: "string \<Rightarrow> string list \<Rightarrow> string" where
  "js_join sep [] = []"
| "js_join sep [s] = s"
| "js_join sep (s # t # ts) = s @ sep @ js_join sep (t # ts)"

text \<open>\<open>String(v)\<close>, which is also what a template literal does with \<open>${v}\<close>.\<close>

fun to_string :: "platform \<Rightarrow> jsval \<Rightarrow> string" where
  "to_string P JUndefined = ''undefined''"
| "to_string P JNull = ''null''"
| "to_string P (JBool b) = (if b then ''true'' else ''false'')"
| "to_string P (JNum NaN) = ''NaN''"
| "to_string P (JNum PosInf) = ''Infinity''"
| "to_string P (JNum NegInf) = ''-Infinity''"
| "to_string P (JNum (Fin r)) = num_str P r"
| "to_string P (JStr s) = s"
| "to_string P (JArr vs) =
     js_join '','' (map (\<lambda>v. if v = JUndefined \<or> v = JNull then [] else to_string P v) vs)"
| "to_string P (JObj fs) = ''[object Object]''"

text \<open>\<open>Number(v)\<close>.\<close>

fun to_number :: "platform \<Rightarrow> jsval \<Rightarrow> jsnum" where
  "to_number P JUndefined = NaN"
| "to_number P JNull = Fin 0"
| "to_number P (JBool b) = (if b then Fin 1 else Fin 0)"
| "to_number P (JNum n) = n"
| "to_number P (JStr s) = str_num P s"
| "to_number P (JArr vs) = str_num P (to_string P (JArr vs))"
| "to_number P (JObj fs) = str_num P (to_string P (JObj fs))"

text \<open>What \<open>!!v\<close>, \<open>v || d\<close> and \<open>if (v)\<close> test.\<close>

fun truthy :: "jsval \<Rightarrow> bool" where
  "truthy JUndefined = False"
| "truthy JNull = False"
| "truthy (JBool b) = b"
| "truthy (JNum n) = (n \<noteq> NaN \<and> n \<noteq> Fin 0)"
| "truthy (JStr s) = (s \<noteq> [])"
| "truthy (JArr vs) = True"
| "truthy (JObj fs) = True"

text \<open>
  \<open>v[key]\<close>, for the keys the program reads (\<open>falla_N\<close>, \<open>visited\<close>, \<open>wish\<close>): reading
  a property of \<open>null\<close> or \<open>undefined\<close> throws a TypeError; an object gives its own
  property or \<open>undefined\<close>; a boolean, a number, a string and an array have no property of
  these names.
\<close>

fun get_prop :: "jsval \<Rightarrow> string \<Rightarrow> js_error + jsval" where
  "get_prop JUndefined key = Inl TypeError"
| "get_prop JNull key = Inl TypeError"
| "get_prop (JObj fs) key = Inr (case map_of fs key of None \<Rightarrow> JUndefined | Some v \<Rightarrow> v)"
| "get_prop v key = Inr JUndefined"

text \<open>\<open>v?.key\<close>: \<open>undefined\<close> where \<open>v\<close> is \<open>null\<close> or \<open>undefined\<close>.\<close>

definition opt_prop :: "jsval \<Rightarrow> string \<Rightarrow> jsval" where
  "opt_prop v key = (case get_prop v key of Inl e \<Rightarrow> JUndefined | Inr x \<Rightarrow> x)"

section \<open>Persistence\<close>

text \<open>
  The item of \<open>localStorage\<close> under \<open>STORAGE_KEY\<close>, by what reading it does:
  \<open>getItem\<close> throws; it returns \<open>null\<close> or the empty text; it returns a text that
  \<open>JSON.parse\<close> rejects; or it returns a text that parses to a value.
\<close>

datatype stored = Unreadable | Missing | Unparseable | Parsed jsval

definition keyForFallaNumber :: "platform \<Rightarrow> jsval \<Rightarrow> string" where
  "keyForFallaNumber P num = ''falla_'' @ to_string P num"

definition loadState :: "stored \<Rightarrow> jsval" where
  "loadState st =
     (case st of
        Unreadable \<Rightarrow> JObj []
      | Missing \<Rightarrow> JObj []
      | Unparseable \<Rightarrow> JObj []
      | Parsed v \<Rightarrow> v)"

text \<open>
  \<open>saveState\<close> writes the JSON text of the state. The states the program saves are values
  it has read with \<open>JSON.parse\<close>, with a record of booleans and finite numbers put in; the
  text of such a value parses to the value again.
\<close>

definition saveState :: "jsval \<Rightarrow> stored" where
  "saveState state = Parsed state"

section \<open>Utilities\<close>

definition normalize_str :: "platform \<Rightarrow> string \<Rightarrow> string" where
  "normalize_str P s = stripDiacritics P (nfd P (toLowerCase P s))"

text \<open>\<open>Math.round\<close> of a finite number rounds halves up.\<close>

definition js_round :: "real \<Rightarrow> real" where
  "js_round v = of_int \<lfloor>v + 1 / 2\<rfloor>"

definition clampInt :: "platform \<Rightarrow> jsval \<Rightarrow> real \<Rightarrow> real \<Rightarrow> real \<Rightarrow> real" where
  "clampInt P n mn mx fallback =
     (case to_number P n of
        Fin v \<Rightarrow> max mn (min mx (js_round v))
      | _ \<Rightarrow> fallback)"

section \<open>The popup of a marker: reading and saving the state of one falla\<close>

text \<open>The record a falla has when the state holds none (or a falsy value) under its key.\<close>

definition default_record :: jsval where
  "default_record =
     JObj [(''visited'', JBool False), (''wish'', JBool False),
           (''rating_major'', JNum (Fin 0)), (''rating_child'', JNum (Fin 0))]"

text \<open>\<open>state[key] || { visited: false, wish: false, rating_major: 0, rating_child: 0 }\<close>.\<close>

definition read_record :: "jsval \<Rightarrow> string \<Rightarrow> js_error + jsval" where
  "read_record state key =
     (case get_prop state key of
        Inl e \<Rightarrow> Inl e
      | Inr cur \<Rightarrow> Inr (if truthy cur then cur else default_record))"

text \<open>
  The object the click on the save button builds. The four elements of the popup are looked
  up by id and may be missing: \<open>v\<close> and \<open>w\<close> are the \<open>checked\<close> flags of the two
  checkboxes, \<open>m\<close> and \<open>c\<close> the \<open>value\<close> texts of the two number fields, each
  \<open>None\<close> when the element is not found.
\<close>

definition checked_flag :: "bool option \<Rightarrow> bool" where
  "checked_flag el = (case el of None \<Rightarrow> False | Some b \<Rightarrow> b)"

definition field_value :: "string option \<Rightarrow> jsval" where
  "field_value el = (case el of None \<Rightarrow> JUndefined | Some s \<Rightarrow> JStr s)"

definition click_record ::
  "platform \<Rightarrow> bool option \<Rightarrow> bool option \<Rightarrow> string option \<Rightarrow> string option \<Rightarrow> jsval" where
  "click_record P v w m c =
     JObj [(''visited'', JBool (checked_flag v)),
           (''wish'', JBool (checked_flag w)),
           (''rating_major'', JNum (Fin (clampInt P (field_value m) 0 10 0))),
           (''rating_child'', JNum (Fin (clampInt P (field_value c) 0 10 0)))]"

text \<open>
  \<open>s.onclick\<close>, up to \<open>saveState(next)\<close>: load the state, put the record under the
  key, save the whole state. The assignment \<open>next[key] = ...\<close> throws on \<open>null\<close>; on a
  boolean, a number or a string it does nothing (the script is not in strict mode); on an
  array it sets a property that is no element, which the JSON text of the array leaves out.
\<close>

definition save_click ::
  "platform \<Rightarrow> stored \<Rightarrow> string \<Rightarrow> bool option \<Rightarrow> bool option \<Rightarrow> string option \<Rightarrow> string option \<Rightarrow>
   js_error + stored" where
  "save_click P st key v w m c =
     (case loadState st of
        JNull \<Rightarrow> Inl TypeError
      | JUndefined \<Rightarrow> Inl TypeError
      | JObj fs \<Rightarrow> Inr (saveState (JObj (AList.update key (click_record P v w m c) fs)))
      | other \<Rightarrow> Inr (saveState other))"

text \<open>A run of clicks, each on the save button of some popup, stopping at the first error.\<close>

fun save_clicks ::
  "platform \<Rightarrow> stored \<Rightarrow>
   (string \<times> bool option \<times> bool option \<times> string option \<times> string option) list \<Rightarrow>
   js_error + stored" where
  "save_clicks P st [] = Inr st"
| "save_clicks P st ((key, v, w, m, c) # rest) =
     (case save_click P st key v w m c of
        Inl e \<Rightarrow> Inl e
      | Inr st' \<Rightarrow> save_clicks P st' rest)"

section \<open>The catalog and the filters\<close>

text \<open>
  A raw record of \<open>/data/fallas.json\<close>, an array of objects. Each field is whatever
  JSON value the file has there, \<open>JUndefined\<close> when the record has no such field.
\<close>

record falla =
  falla_number :: jsval
  name :: jsval
  section' :: jsval
  lat :: jsval
  lng :: jsval
  sketch_url :: jsval



text \<open>
  The section checkboxes of the page (\<open>.sec-cb\<close>), each with its \<open>data-section\<close> and
  its \<open>checked\<close> flag, and the checkbox \<open>sec_all\<close>.
\<close>

record section_panel =
  sec_cbs :: "(string \<times> bool) list"
  all_cb :: bool

datatype selection = AllSections | Sections "string list"

definition getSelectedSections :: "(string \<times> bool) list \<Rightarrow> selection" where
  "getSelectedSections cbs =
     (if cbs = [] then AllSections
      else
        let selected = map fst (filter snd cbs)
        in if length selected = length cbs then AllSections else Sections selected)"

text \<open>The \<open>change\<close> handler of \<open>sec_all\<close>, before it calls \<open>applyFilters\<close>.\<close>

definition all_changed :: "section_panel \<Rightarrow> section_panel" where
  "all_changed p = p\<lparr>sec_cbs := map (\<lambda>cb. (fst cb, all_cb p)) (sec_cbs p)\<rparr>"

text \<open>The \<open>change\<close> handler of a section checkbox, before it calls \<open>applyFilters\<close>.\<close>

definition section_changed :: "section_panel \<Rightarrow> section_panel" where
  "section_changed p =
     (let cbs = sec_cbs p;
          allChecked = list_all snd cbs;
          noneChecked = list_all (\<lambda>cb. \<not> snd cb) cbs
      in if noneChecked then p\<lparr>sec_cbs := map (\<lambda>cb. (fst cb, True)) cbs, all_cb := True\<rparr>
         else p\<lparr>all_cb := allChecked\<rparr>)"

text \<open>
  What the user does: a click on \<open>sec_all\<close> flips it and fires its handler; a click on
  the \<open>i\<close>-th section checkbox flips that one and fires the handler of the list.
\<close>

definition click_all :: "section_panel \<Rightarrow> section_panel" where
  "click_all p = all_changed (p\<lparr>all_cb := \<not> all_cb p\<rparr>)"

definition click_section :: "nat \<Rightarrow> section_panel \<Rightarrow> section_panel" where
  "click_section i p =
     (if i < length (sec_cbs p)
      then section_changed
             (p\<lparr>sec_cbs := (sec_cbs p)[i := (fst (sec_cbs p ! i), \<not> snd (sec_cbs p ! i))]\<rparr>)
      else p)"

text \<open>\<open>getStatusFilter\<close>: the value of the select element, \<open>"ALL"\<close> when there is none.\<close>

definition getStatusFilter :: "string option \<Rightarrow> string" where
  "getStatusFilter el = (case el of None \<Rightarrow> ''ALL'' | Some v \<Rightarrow> v)"

text \<open>\<open>hay.includes(q)\<close>.\<close>

fun js_includes :: "string \<Rightarrow> string \<Rightarrow> bool" where
  "js_includes [] q = (q = [])"
| "js_includes (h # hay) q = (take (length q) (h # hay) = q \<or> js_includes hay q)"

text \<open>
  \<open>Array.prototype.filter\<close> with a callback that may throw: the elements are tested in
  order and the first exception ends the call.
\<close>

fun filter_err :: "('a \<Rightarrow> js_error + bool) \<Rightarrow> 'a list \<Rightarrow> js_error + 'a list" where
  "filter_err p [] = Inr []"
| "filter_err p (x # xs) =
     (case p x of
        Inl e \<Rightarrow> Inl e
      | Inr b \<Rightarrow>
          (case filter_err p xs of
             Inl e \<Rightarrow> Inl e
           | Inr ys \<Rightarrow> Inr (if b then x # ys else ys)))"

text \<open>The three steps of \<open>applyFilters\<close>.\<close>

definition section_filter :: "selection \<Rightarrow> falla list \<Rightarrow> falla list" where
  "section_filter selectedSections filtered =
     (case selectedSections of
        AllSections \<Rightarrow> filtered
      | Sections sel \<Rightarrow>
          filter (\<lambda>f. case section' f of JStr s \<Rightarrow> s \<in> set sel | _ \<Rightarrow> False) filtered)"

definition haystack :: "platform \<Rightarrow> falla \<Rightarrow> string" where
  "haystack P f =
     normalize_str P
       (to_string P (name f) @ '' '' @ to_string P (falla_number f) @ '' '' @ to_string P (section' f))"

definition text_filter :: "platform \<Rightarrow> string \<Rightarrow> falla list \<Rightarrow> falla list" where
  "text_filter P q filtered =
     (if q \<noteq> [] then filter (\<lambda>f. js_includes (haystack P f) q) filtered else filtered)"

definition status_test :: "platform \<Rightarrow> string \<Rightarrow> jsval \<Rightarrow> falla \<Rightarrow> js_error + bool" where
  "status_test P statusFilter state f =
     (let key = keyForFallaNumber P (falla_number f)
      in case get_prop state key of
           Inl e \<Rightarrow> Inl e
         | Inr entry \<Rightarrow>
             let visited = truthy (opt_prop entry ''visited'');
                 wish = truthy (opt_prop entry ''wish'')
             in if statusFilter = ''VISITED'' then Inr visited
                else if statusFilter = ''NOT_VISITED'' then Inr (\<not> visited)
                else if statusFilter = ''WISH'' then Inr wish
                else Inr True)"

definition status_filter ::
  "platform \<Rightarrow> string \<Rightarrow> jsval \<Rightarrow> falla list \<Rightarrow> js_error + falla list" where
  "status_filter P statusFilter state filtered =
     (if statusFilter \<noteq> ''ALL'' then filter_err (status_test P statusFilter state) filtered
      else Inr filtered)"

text \<open>
  \<open>applyFilters\<close>, up to the list it hands to \<open>renderMarkers\<close>: \<open>textValue\<close> is the
  value of the text field (\<open>""\<close> when there is none), \<open>statusFilter\<close> what
  \<open>getStatusFilter\<close> gives, \<open>cbs\<close> the section checkboxes, \<open>st\<close> the stored item.
\<close>

definition applyFilters ::
  "platform \<Rightarrow> falla list \<Rightarrow> string \<Rightarrow> string \<Rightarrow> (string \<times> bool) list \<Rightarrow> stored \<Rightarrow>
   js_error + falla list" where
  "applyFilters P allFallas textValue statusFilter cbs st =
     (let q = normalize_str P textValue;
          selectedSections = getSelectedSections cbs;
          state = loadState st
      in status_filter P statusFilter state
           (text_filter P q (section_filter selectedSections allFallas)))"

section \<open>The markers\<close>

text \<open>\<open>s.replace(",", ".")\<close>: the first comma becomes a dot.\<close>

fun replace_comma :: "string \<Rightarrow> string" where
  "replace_comma [] = []"
| "replace_comma (ch # s) = (if ch = CHR '','' then CHR ''.'' # s else ch # replace_comma s)"

text \<open>
  \<open>s.trim()\<close> takes the white space and the line terminators off both ends of a text.
  Of the characters of this alphabet they are the tab, the line feed, the vertical tab, the
  form feed, the carriage return, the space and the no-break space.
\<close>

definition js_space :: "char \<Rightarrow> bool" where
  "js_space ch = (ch \<in> set [CHR 0x09, CHR 0x0A, CHR 0x0B, CHR 0x0C, CHR 0x0D, CHR 0x20, CHR 0xA0])"

definition trim :: "string \<Rightarrow> string" where
  "trim s = rev (dropWhile js_space (rev (dropWhile js_space s)))"

text \<open>
  \<open>normalizeSection\<close>, the text an icon shows for a section. A falsy section gives
  \<open>X\<close>. Otherwise \<open>section.toString()\<close> is lowered and searched; when neither search
  succeeds the source calls \<open>section.replace\<close>, which takes the first ordinal indicator
  (the character \<open>0xAA\<close>) out of a text, and which is not there on a boolean, a number,
  an array or an object: the call throws a TypeError.
\<close>

definition normalizeSection :: "platform \<Rightarrow> jsval \<Rightarrow> js_error + string" where
  "normalizeSection P section =
     (if \<not> truthy section then Inr ''X''
      else
        let s = toLowerCase P (to_string P section)
        in if js_includes s ''especial'' then Inr ''E''
           else if js_includes s ''fuera'' \<and> js_includes s ''concurso'' then Inr ''FC''
           else
             case section of
               JStr t \<Rightarrow> Inr (trim (remove1 (CHR 0xAA) t))
             | _ \<Rightarrow> Inl TypeError)"

text \<open>
  \<open>createFallaIcon\<close>. The icon is a \<open>div\<close> whose text is the normalized section and
  whose classes are \<open>falla-marker\<close>, \<open>sec-\<close> with the normalized section, and
  \<open>falla-visited\<close> when \<open>visited\<close> is truthy; the rest of it is constant.
\<close>

record icon =
  icon_sec :: string
  icon_visited :: bool

definition createFallaIcon :: "platform \<Rightarrow> jsval \<Rightarrow> jsval \<Rightarrow> js_error + icon" where
  "createFallaIcon P section visited =
     (case normalizeSection P section of
        Inl e \<Rightarrow> Inl e
      | Inr sec \<Rightarrow> Inr \<lparr>icon_sec = sec, icon_visited = truthy visited\<rparr>)"

text \<open>
  What \<open>renderMarkers\<close> keeps of a marker: its position, its icon, and the number and
  the section pushed with it on \<open>markers\<close>.
\<close>

record marker =
  m_lat :: jsnum
  m_lng :: jsnum
  m_falla_number :: jsnum
  m_section :: jsval
  m_icon :: icon

definition coordinate :: "platform \<Rightarrow> jsval \<Rightarrow> jsnum" where
  "coordinate P x = to_number P (JStr (replace_comma (to_string P x)))"

text \<open>
  The loop of \<open>renderMarkers\<close> over the fallas, with the state loaded before it. A falla
  whose coordinates or number do not convert to finite numbers is skipped (\<open>continue\<close>).
  For the others the loop reads \<open>state[key]\<close>, builds the popup from texts of the record
  (a template literal, which does not throw on a value of JSON), and creates the icon; an
  exception of either step ends the loop and the call.
\<close>

fun render_loop :: "platform \<Rightarrow> jsval \<Rightarrow> falla list \<Rightarrow> js_error + marker list" where
  "render_loop P state [] = Inr []"
| "render_loop P state (f # fallas) =
     (let la = coordinate P (lat f); lo = coordinate P (lng f)
      in if \<not> isFinite la \<or> \<not> isFinite lo then render_loop P state fallas
         else
           let fallaNum = to_number P (falla_number f)
           in if \<not> isFinite fallaNum then render_loop P state fallas
              else
                case read_record state (keyForFallaNumber P (JNum fallaNum)) of
                  Inl e \<Rightarrow> Inl e
                | Inr cur \<Rightarrow>
                    (case createFallaIcon P (section' f) (opt_prop cur ''visited'') of
                       Inl e \<Rightarrow> Inl e
                     | Inr ic \<Rightarrow>
                         (case render_loop P state fallas of
                            Inl e \<Rightarrow> Inl e
                          | Inr ms \<Rightarrow>
                              Inr (\<lparr>m_lat = la, m_lng = lo, m_falla_number = fallaNum,
                                    m_section = section' f, m_icon = ic\<rparr> # ms))))"

definition renderMarkers :: "platform \<Rightarrow> falla list \<Rightarrow> stored \<Rightarrow> js_error + marker list" where
  "renderMarkers P fallas st = render_loop P (loadState st) fallas"

section \<open>The route builder\<close>

text \<open>
  \<open>buildOptimizedRoute(origin, points, maxMeters)\<close>. The origin and the points are
  objects carrying \<open>lat\<close> and \<open>lng\<close>; the builder only hands them to
  \<open>distanceMeters\<close>, so they are values of any type \<open>'p\<close>. Two operations of the
  source are floating-point computations: \<open>distanceMeters\<close> (haversine, with
  \<open>Math.sin\<close>, \<open>Math.cos\<close>, \<open>Math.sqrt\<close>, \<open>Math.atan2\<close>) and the addition
  \<open>usedMeters + bestDist\<close>. They are the parameters \<open>distanceMeters\<close> and \<open>add\<close> of the
  model, so every theorem below holds for whatever these two compute, rounding included.
\<close>

text \<open>
  The inner \<open>for\<close> loop over \<open>remaining\<close>, from index \<open>i\<close> on, carrying
  \<open>(bestIdx, bestDist)\<close>.
\<close>

fun nearest_scan ::
  "('p \<Rightarrow> 'p \<Rightarrow> jsnum) \<Rightarrow> 'p \<Rightarrow> 'p list \<Rightarrow> nat \<Rightarrow> nat \<times> jsnum \<Rightarrow> nat \<times> jsnum" where
  "nearest_scan distanceMeters current [] i best = best"
| "nearest_scan distanceMeters current (p # ps) i (bestIdx, bestDist) =
     (let d = distanceMeters current p in
      if js_lt d bestDist then nearest_scan distanceMeters current ps (Suc i) (i, d)
      else nearest_scan distanceMeters current ps (Suc i) (bestIdx, bestDist))"

text \<open>The loop started as the source starts it: \<open>bestIdx = 0\<close>, \<open>bestDist = Infinity\<close>.\<close>

definition nearest :: "('p \<Rightarrow> 'p \<Rightarrow> jsnum) \<Rightarrow> 'p \<Rightarrow> 'p list \<Rightarrow> nat \<times> jsnum" where
  "nearest distanceMeters current remaining = nearest_scan distanceMeters current remaining 0 (0, PosInf)"

text \<open>\<open>remaining.splice(k, 1)\<close>: what is left of the array.\<close>

definition splice1 :: "nat \<Rightarrow> 'a list \<Rightarrow> 'a list" where
  "splice1 k xs = take k xs @ drop (Suc k) xs"

text \<open>The budget test of the source: \<open>Number.isFinite(maxMeters) && maxMeters > 0\<close>.\<close>

definition budgeted :: "jsnum \<Rightarrow> bool" where
  "budgeted maxMeters = (isFinite maxMeters \<and> js_gt maxMeters (Fin 0))"

text \<open>
  The scan returns an index of the array it scans, so \<open>splice\<close> takes one element
  out and the loop below ends.
\<close>

lemma nearest_scan_idx:
  "fst best < i + length ps \<Longrightarrow> fst (nearest_scan distanceMeters current ps i best) < i + length ps"
proof (induction ps arbitrary: i best)
  case Nil
  then show ?case by simp
next
  case (Cons p ps)
  obtain bi bd where b: "best = (bi, bd)" by (cases best)
  have "fst (nearest_scan distanceMeters current ps (Suc i) (i, distanceMeters current p)) < Suc i + length ps"
    by (rule Cons.IH) simp
  moreover have "fst (nearest_scan distanceMeters current ps (Suc i) (bi, bd)) < Suc i + length ps"
    by (rule Cons.IH) (use Cons.prems b in simp)
  ultimately show ?case by (simp add: b Let_def)
qed

lemma nearest_idx: "remaining \<noteq> [] \<Longrightarrow> fst (nearest distanceMeters current remaining) < length remaining"
  using nearest_scan_idx [of "(0, PosInf)" 0 remaining distanceMeters current]
  by (simp add: nearest_def)

lemma length_splice1: "k < length xs \<Longrightarrow> length (splice1 k xs) < length xs"
  by (simp add: splice1_def)

text \<open>
  The \<open>while\<close> loop. Its state is \<open>current\<close>, \<open>remaining\<close>, \<open>route\<close> and
  \<open>usedMeters\<close>; \<open>break\<close> and the end of the loop both return the pair
  \<open>(route, usedMeters)\<close>.
\<close>

function route_loop ::
  "('p \<Rightarrow> 'p \<Rightarrow> jsnum) \<Rightarrow> (jsnum \<Rightarrow> jsnum \<Rightarrow> jsnum) \<Rightarrow> jsnum \<Rightarrow>
   'p \<Rightarrow> 'p list \<Rightarrow> 'p list \<Rightarrow> jsnum \<Rightarrow> 'p list \<times> jsnum" where
  "route_loop distanceMeters add maxMeters current remaining route usedMeters =
     (if remaining = [] then (route, usedMeters)
      else
        let bestIdx = fst (nearest distanceMeters current remaining);
            bestDist = snd (nearest distanceMeters current remaining)
        in if budgeted maxMeters \<and> js_gt (add usedMeters bestDist) maxMeters
           then (route, usedMeters)
           else
             let next = remaining ! bestIdx
             in route_loop distanceMeters add maxMeters next (splice1 bestIdx remaining)
                  (route @ [next]) (add usedMeters bestDist))"
  by pat_completeness auto
termination
  by (relation "measure (\<lambda>(distanceMeters, add, maxMeters, current, remaining, route, usedMeters).
        length remaining)")
     (auto simp: nearest_idx length_splice1)

declare route_loop.simps [simp del]

record 'p route_result =
  route :: "'p list"
  usedMeters :: jsnum

definition buildOptimizedRoute ::
  "('p \<Rightarrow> 'p \<Rightarrow> jsnum) \<Rightarrow> (jsnum \<Rightarrow> jsnum \<Rightarrow> jsnum) \<Rightarrow> 'p \<Rightarrow> 'p list \<Rightarrow> jsnum \<Rightarrow>
   'p route_result" where
  "buildOptimizedRoute distanceMeters add origin points maxMeters =
     (case route_loop distanceMeters add maxMeters origin points [] (Fin 0) of
        (r, u) \<Rightarrow> \<lparr>route = r, usedMeters = u\<rparr>)"

section \<open>What the claims speak of\<close>

text \<open>
  The legs of a route walked from \<open>cur\<close>: the distance from \<open>cur\<close> to the first stop,
  then from each stop to the next.
\<close>

fun legs :: "('p \<Rightarrow> 'p \<Rightarrow> jsnum) \<Rightarrow> 'p \<Rightarrow> 'p list \<Rightarrow> jsnum list" where
  "legs d cur [] = []"
| "legs d cur (p # ps) = d cur p # legs d p ps"

text \<open>
  The length the loop counts for a leg from \<open>a\<close> to \<open>b\<close>. The scan starts from
  \<open>bestDist = Infinity\<close> and replaces it only by a distance below it, so a leg whose
  distance is not below \<open>Infinity\<close> (it is \<open>Infinity\<close> or NaN) is counted as
  \<open>Infinity\<close>; every other leg is counted as its distance.
\<close>

definition counted :: "('p \<Rightarrow> 'p \<Rightarrow> jsnum) \<Rightarrow> 'p \<Rightarrow> 'p \<Rightarrow> jsnum" where
  "counted d a b = (if js_lt (d a b) PosInf then d a b else PosInf)"

text \<open>
  Index \<open>k\<close> is the first nearest of \<open>ps\<close> seen from \<open>cur\<close>: no candidate is closer
  than \<open>ps ! k\<close>, and every candidate before it is strictly farther.
\<close>

definition first_nearest :: "('p \<Rightarrow> 'p \<Rightarrow> jsnum) \<Rightarrow> 'p \<Rightarrow> 'p list \<Rightarrow> nat \<Rightarrow> bool" where
  "first_nearest d cur ps k =
     (k < length ps \<and>
      (\<forall>j<length ps. js_le (d cur (ps ! k)) (d cur (ps ! j))) \<and>
      (\<forall>j<k. js_lt (d cur (ps ! k)) (d cur (ps ! j))))"

text \<open>
  A route is a nearest-first chain from \<open>cur\<close> over \<open>rem\<close>: each stop is the first
  nearest of the candidates still remaining, seen from the stop before it (from \<open>cur\<close> for
  the first stop), and is removed from the candidates once taken.
\<close>

fun greedy_chain :: "('p \<Rightarrow> 'p \<Rightarrow> jsnum) \<Rightarrow> 'p \<Rightarrow> 'p list \<Rightarrow> 'p list \<Rightarrow> bool" where
  "greedy_chain d cur rem [] = True"
| "greedy_chain d cur rem (p # rest) =
     (\<exists>k<length rem. first_nearest d cur rem k \<and> p = rem ! k \<and>
        greedy_chain d p (splice1 k rem) rest)"

text \<open>
  The same without the assumption that the distances are numbers. A distance that is NaN is
  below nothing and nothing is below it. Index \<open>k\<close> is selected: if no candidate is at a
  distance below \<open>Infinity\<close> it is the first index; otherwise the candidate \<open>ps ! k\<close>
  is at a distance below \<open>Infinity\<close>, no candidate is closer, and no candidate before it
  is as close.
\<close>

definition selected :: "('p \<Rightarrow> 'p \<Rightarrow> jsnum) \<Rightarrow> 'p \<Rightarrow> 'p list \<Rightarrow> nat \<Rightarrow> bool" where
  "selected d cur ps k =
     (k < length ps \<and>
      (if \<forall>j<length ps. \<not> js_lt (d cur (ps ! j)) PosInf then k = 0
       else js_lt (d cur (ps ! k)) PosInf \<and>
            (\<forall>j<length ps. \<not> js_lt (d cur (ps ! j)) (d cur (ps ! k))) \<and>
            (\<forall>j<k. \<not> js_le (d cur (ps ! j)) (d cur (ps ! k)))))"

fun selection_chain :: "('p \<Rightarrow> 'p \<Rightarrow> jsnum) \<Rightarrow> 'p \<Rightarrow> 'p list \<Rightarrow> 'p list \<Rightarrow> bool" where
  "selection_chain d cur rem [] = True"
| "selection_chain d cur rem (p # rest) =
     (\<exists>k<length rem. selected d cur rem k \<and> p = rem ! k \<and>
        selection_chain d p (splice1 k rem) rest)"

text \<open>
  The record of one falla as the state holds it, from the four values of a visit state.
\<close>

definition visit_record :: "bool \<Rightarrow> bool \<Rightarrow> int \<Rightarrow> int \<Rightarrow> jsval" where
  "visit_record visited wish major child =
     JObj [(''visited'', JBool visited), (''wish'', JBool wish),
           (''rating_major'', JNum (Fin (of_int major))), (''rating_child'', JNum (Fin (of_int child)))]"

text \<open>
  Whether the state has a falla as visited: \<open>!!state[key]?.visited\<close>, for a state that
  is not \<open>null\<close>.
\<close>

definition visited_in :: "platform \<Rightarrow> jsval \<Rightarrow> falla \<Rightarrow> bool" where
  "visited_in P state f =
     truthy (opt_prop (opt_prop state (keyForFallaNumber P (falla_number f))) ''visited'')"





section \<open>Fixtures for concrete runs\<close>

text \<open>
  Points on a line, in metres, with the distance between two of them; and the addition of
  doubles without rounding.
\<close>

definition line_distance :: "real \<Rightarrow> real \<Rightarrow> jsnum" where
  "line_distance a b = Fin \<bar>b - a\<bar>"

fun exact_add :: "jsnum \<Rightarrow> jsnum \<Rightarrow> jsnum" where
  "exact_add (Fin a) (Fin b) = Fin (a + b)"
| "exact_add NaN _ = NaN"
| "exact_add _ NaN = NaN"
| "exact_add PosInf NegInf = NaN"
| "exact_add NegInf PosInf = NaN"
| "exact_add PosInf _ = PosInf"
| "exact_add _ PosInf = PosInf"
| "exact_add NegInf _ = NegInf"
| "exact_add _ NegInf = NegInf"

text \<open>
  A platform for concrete runs: it knows the texts of a few numbers and lowers the ASCII
  letters; the texts in the runs below have no diacritics.
\<close>

definition ascii_lower :: "char \<Rightarrow> char" where
  "ascii_lower ch =
     (case map_of (zip ''ABCDEFGHIJKLMNOPQRSTUVWXYZ'' ''abcdefghijklmnopqrstuvwxyz'') ch of
        None \<Rightarrow> ch | Some l \<Rightarrow> l)"

definition test_platform :: platform where
  "test_platform =
     \<lparr>num_str = (\<lambda>r. if r = 1 then ''1'' else if r = 12 then ''12'' else if r = 999 then ''999'' else ''0''),
      str_num = (\<lambda>s. if s = ''7'' then Fin 7 else if s = ''3'' then Fin 3
                     else if s = ''15'' then Fin 15 else if s = ''-3'' then Fin (- 3)
                     else if s = ''39.47'' then Fin (3947 / 100) else if s = ''-0.37'' then Fin (- 37 / 100)
                     else if s = ''12'' then Fin 12
                     else if s = ''1e999'' then PosInf else NaN),
      toLowerCase = map ascii_lower,
      nfd = (\<lambda>s. s),
      stripDiacritics = (\<lambda>s. s)\<rparr>"

text \<open>
  Three raw records (the last with no number and a latitude that is no number) and a stored
  state in which the first is visited.
\<close>

definition falla_plaza :: falla where
  "falla_plaza =
     \<lparr>falla_number = JNum (Fin 1), name = JStr ''Plaza'', section' = JStr ''1A'',
      lat = JStr ''39,47'', lng = JStr ''-0.37'', sketch_url = JUndefined\<rparr>"

definition falla_mercado :: falla where
  "falla_mercado =
     \<lparr>falla_number = JNum (Fin 12), name = JStr ''Mercado'', section' = JStr ''E'',
      lat = JStr ''39.47'', lng = JStr ''-0.37'', sketch_url = JUndefined\<rparr>"


definition state_plaza_visited :: stored where
  "state_plaza_visited = Parsed (JObj [(''falla_1'', visit_record True False 7 3)])"

section \<open>Lemmas\<close>

subsection \<open>The order of JavaScript numbers\<close>

lemma js_lt_trans: "js_lt a b \<Longrightarrow> js_lt b c \<Longrightarrow> js_lt a c"
  by (cases a; cases b; cases c) auto

lemma js_lt_irrefl: "\<not> js_lt a a"
  by (cases a) auto

lemma js_le_iff_not_lt: "a \<noteq> NaN \<Longrightarrow> b \<noteq> NaN \<Longrightarrow> js_le a b = (\<not> js_lt b a)"
  by (cases a; cases b) auto

lemma js_le_lt_trans: "js_le a b \<Longrightarrow> js_lt b c \<Longrightarrow> js_lt a c"
  by (cases a; cases b; cases c) auto

lemma js_lt_le_trans: "js_lt a b \<Longrightarrow> js_le b c \<Longrightarrow> js_lt a c"
  by (cases a; cases b; cases c) auto

lemma js_le_trans: "js_le a b \<Longrightarrow> js_le b c \<Longrightarrow> js_le a c"
  by (cases a; cases b; cases c) auto

lemma js_lt_imp_le: "js_lt a b \<Longrightarrow> js_le a b"
  by (cases a; cases b) auto

lemma js_le_refl: "a \<noteq> NaN \<Longrightarrow> js_le a a"
  by (cases a) auto

lemma not_lt_PosInf: "a \<noteq> NaN \<Longrightarrow> \<not> js_lt a PosInf \<Longrightarrow> a = PosInf"
  by (cases a) auto

lemma js_lt_asym: "js_lt a b \<Longrightarrow> \<not> js_lt b a"
  by (cases a; cases b) auto

lemma js_lt_not_le: "js_lt a b \<Longrightarrow> \<not> js_le b a"
  by (cases a; cases b) auto

lemma js_lt_not_NaN: "js_lt a b \<Longrightarrow> a \<noteq> NaN \<and> b \<noteq> NaN"
  by (cases a; cases b) auto

subsection \<open>The scan finds the first nearest candidate\<close>

lemma nearest_scan_spec:
  assumes "\<forall>p \<in> set ps. d cur p \<noteq> NaN" and "bd \<noteq> NaN"
    and "nearest_scan d cur ps i (bi, bd) = (k, r)"
  shows "(\<forall>j<length ps. js_le r (d cur (ps ! j))) \<and>
     ((k = bi \<and> r = bd \<and> (\<forall>j<length ps. \<not> js_lt (d cur (ps ! j)) bd)) \<or>
      (i \<le> k \<and> k < i + length ps \<and> r = d cur (ps ! (k - i)) \<and> js_lt r bd \<and>
       (\<forall>j<k - i. js_lt r (d cur (ps ! j)))))"
  using assms
proof (induction ps arbitrary: i bi bd)
  case Nil
  then show ?case by simp
next
  case (Cons p ps)
  let ?dp = "d cur p"
  have dp: "?dp \<noteq> NaN" and rest: "\<forall>q \<in> set ps. d cur q \<noteq> NaN" using Cons.prems by auto
  show ?case
  proof (cases "js_lt ?dp bd")
    case True
    have eq: "nearest_scan d cur ps (Suc i) (i, ?dp) = (k, r)"
      using True Cons.prems(3) by simp
    note IH = Cons.IH [OF rest dp eq]
    from IH have all: "\<forall>j<length ps. js_le r (d cur (ps ! j))" by blast
    from IH consider
      (stay) "k = i" "r = ?dp" "\<forall>j<length ps. \<not> js_lt (d cur (ps ! j)) ?dp"
      | (move) "Suc i \<le> k" "k < Suc i + length ps" "r = d cur (ps ! (k - Suc i))" "js_lt r ?dp"
          "\<forall>j<k - Suc i. js_lt r (d cur (ps ! j))"
      by blast
    then show ?thesis
    proof cases
      case stay
      have a: "\<forall>j<length (p # ps). js_le r (d cur ((p # ps) ! j))"
        using all stay(2) dp by (auto simp: nth_Cons js_le_refl split: nat.splits)
      have b: "i \<le> k \<and> k < i + length (p # ps) \<and> r = d cur ((p # ps) ! (k - i)) \<and> js_lt r bd \<and>
       (\<forall>j<k - i. js_lt r (d cur ((p # ps) ! j)))"
        using stay(1,2) True by simp
      show ?thesis using a b by blast
    next
      case move
      have rp: "js_le r ?dp" using move(4) by (rule js_lt_imp_le)
      have a: "\<forall>j<length (p # ps). js_le r (d cur ((p # ps) ! j))"
        using all rp by (auto simp: nth_Cons split: nat.splits)
      have ki: "k - i = Suc (k - Suc i)" using move(1) by arith
      have b: "r = d cur ((p # ps) ! (k - i))"
        using move(3) by (simp add: ki)
      have c: "js_lt r bd" using move(4) True by (rule js_lt_trans)
      have e: "\<forall>j<k - i. js_lt r (d cur ((p # ps) ! j))"
      proof (intro allI impI)
        fix j assume j: "j < k - i"
        show "js_lt r (d cur ((p # ps) ! j))"
        proof (cases j)
          case 0
          then show ?thesis using move(4) by simp
        next
          case (Suc j')
          then have "j' < k - Suc i" using j by simp
          then show ?thesis using move(5) Suc by simp
        qed
      qed
      have f: "i \<le> k" "k < i + length (p # ps)" using move(1,2) by simp_all
      show ?thesis using a b c e f by blast
    qed
  next
    case False
    have eq: "nearest_scan d cur ps (Suc i) (bi, bd) = (k, r)"
      using False Cons.prems(3) by simp
    note IH = Cons.IH [OF rest Cons.prems(2) eq]
    have bdp: "js_le bd ?dp" using False dp Cons.prems(2) by (simp add: js_le_iff_not_lt)
    from IH have all: "\<forall>j<length ps. js_le r (d cur (ps ! j))" by blast
    from IH consider
      (stay) "k = bi" "r = bd" "\<forall>j<length ps. \<not> js_lt (d cur (ps ! j)) bd"
      | (move) "Suc i \<le> k" "k < Suc i + length ps" "r = d cur (ps ! (k - Suc i))" "js_lt r bd"
          "\<forall>j<k - Suc i. js_lt r (d cur (ps ! j))"
      by blast
    then show ?thesis
    proof cases
      case stay
      have a: "\<forall>j<length (p # ps). js_le r (d cur ((p # ps) ! j))"
        using all stay(2) bdp by (auto simp: nth_Cons split: nat.splits)
      have b: "\<forall>j<length (p # ps). \<not> js_lt (d cur ((p # ps) ! j)) bd"
        using stay(3) False by (auto simp: nth_Cons split: nat.splits)
      show ?thesis using a b stay(1,2) by blast
    next
      case move
      have rp: "js_lt r ?dp" using move(4) bdp by (rule js_lt_le_trans)
      have a: "\<forall>j<length (p # ps). js_le r (d cur ((p # ps) ! j))"
        using all js_lt_imp_le [OF rp] by (auto simp: nth_Cons split: nat.splits)
      have ki: "k - i = Suc (k - Suc i)" using move(1) by arith
      have b: "r = d cur ((p # ps) ! (k - i))"
        using move(3) by (simp add: ki)
      have e: "\<forall>j<k - i. js_lt r (d cur ((p # ps) ! j))"
      proof (intro allI impI)
        fix j assume j: "j < k - i"
        show "js_lt r (d cur ((p # ps) ! j))"
        proof (cases j)
          case 0
          then show ?thesis using rp by simp
        next
          case (Suc j')
          then have "j' < k - Suc i" using j by simp
          then show ?thesis using move(5) Suc by simp
        qed
      qed
      have f: "i \<le> k" "k < i + length (p # ps)" using move(1,2) by simp_all
      show ?thesis using a b e f move(4) by blast
    qed
  qed
qed

lemma nearest_first_nearest:
  assumes "ps \<noteq> []" and "\<forall>p \<in> set ps. d cur p \<noteq> NaN"
  shows "first_nearest d cur ps (fst (nearest d cur ps)) \<and>
         snd (nearest d cur ps) = d cur (ps ! fst (nearest d cur ps))"
proof -
  obtain k r where kr: "nearest_scan d cur ps 0 (0, PosInf) = (k, r)"
    by (cases "nearest_scan d cur ps 0 (0, PosInf)")
  have spec: "(\<forall>j<length ps. js_le r (d cur (ps ! j))) \<and>
     ((k = 0 \<and> r = PosInf \<and> (\<forall>j<length ps. \<not> js_lt (d cur (ps ! j)) PosInf)) \<or>
      (0 \<le> k \<and> k < 0 + length ps \<and> r = d cur (ps ! (k - 0)) \<and> js_lt r PosInf \<and>
       (\<forall>j<k - 0. js_lt r (d cur (ps ! j)))))"
    by (rule nearest_scan_spec [OF assms(2) _ kr]) simp
  have len: "0 < length ps" using assms(1) by simp
  have nn: "\<forall>j<length ps. d cur (ps ! j) \<noteq> NaN" using assms(2) by simp
  from spec have all: "\<forall>j<length ps. js_le r (d cur (ps ! j))" by blast
  from spec consider
    (stay) "k = 0" "r = PosInf" "\<forall>j<length ps. \<not> js_lt (d cur (ps ! j)) PosInf"
    | (move) "k < length ps" "r = d cur (ps ! k)" "\<forall>j<k. js_lt r (d cur (ps ! j))"
    by auto
  then have "first_nearest d cur ps k \<and> r = d cur (ps ! k)"
  proof cases
    case stay
    have "d cur (ps ! 0) = PosInf" using stay(3) nn len by (simp add: not_lt_PosInf)
    then show ?thesis using stay(1,2) all len by (simp add: first_nearest_def)
  next
    case move
    then show ?thesis using all by (simp add: first_nearest_def)
  qed
  then show ?thesis using kr by (simp add: nearest_def)
qed

lemma nearest_scan_general:
  assumes "nearest_scan d cur ps i (bi, bd) = (k, r)"
  shows "(\<forall>j<length ps. \<not> js_lt (d cur (ps ! j)) r) \<and>
     ((k = bi \<and> r = bd) \<or>
      (i \<le> k \<and> k < i + length ps \<and> r = d cur (ps ! (k - i)) \<and> js_lt r bd \<and>
       (\<forall>j<k - i. \<not> js_le (d cur (ps ! j)) r)))"
  using assms
proof (induction ps arbitrary: i bi bd)
  case Nil
  then show ?case by simp
next
  case (Cons p ps)
  let ?dp = "d cur p"
  show ?case
  proof (cases "js_lt ?dp bd")
    case True
    have eq: "nearest_scan d cur ps (Suc i) (i, ?dp) = (k, r)"
      using True Cons.prems by simp
    note IH = Cons.IH [OF eq]
    from IH have all: "\<forall>j<length ps. \<not> js_lt (d cur (ps ! j)) r" by blast
    from IH consider
      (stay) "k = i" "r = ?dp"
      | (move) "Suc i \<le> k" "k < Suc i + length ps" "r = d cur (ps ! (k - Suc i))" "js_lt r ?dp"
          "\<forall>j<k - Suc i. \<not> js_le (d cur (ps ! j)) r"
      by blast
    then show ?thesis
    proof cases
      case stay
      have a: "\<forall>j<length (p # ps). \<not> js_lt (d cur ((p # ps) ! j)) r"
        using all stay(2) by (auto simp: nth_Cons js_lt_irrefl split: nat.splits)
      have b: "i \<le> k \<and> k < i + length (p # ps) \<and> r = d cur ((p # ps) ! (k - i)) \<and> js_lt r bd \<and>
       (\<forall>j<k - i. \<not> js_le (d cur ((p # ps) ! j)) r)"
        using stay True by simp
      show ?thesis using a b by blast
    next
      case move
      have a: "\<forall>j<length (p # ps). \<not> js_lt (d cur ((p # ps) ! j)) r"
        using all js_lt_asym [OF move(4)] by (auto simp: nth_Cons split: nat.splits)
      have ki: "k - i = Suc (k - Suc i)" using move(1) by arith
      have b: "r = d cur ((p # ps) ! (k - i))" using move(3) by (simp add: ki)
      have c: "js_lt r bd" using move(4) True by (rule js_lt_trans)
      have e: "\<forall>j<k - i. \<not> js_le (d cur ((p # ps) ! j)) r"
      proof (intro allI impI)
        fix j assume j: "j < k - i"
        show "\<not> js_le (d cur ((p # ps) ! j)) r"
        proof (cases j)
          case 0
          then show ?thesis using js_lt_not_le [OF move(4)] by simp
        next
          case (Suc j')
          then have "j' < k - Suc i" using j by simp
          then show ?thesis using move(5) Suc by simp
        qed
      qed
      have f: "i \<le> k" "k < i + length (p # ps)" using move(1,2) by simp_all
      show ?thesis using a b c e f by blast
    qed
  next
    case False
    have eq: "nearest_scan d cur ps (Suc i) (bi, bd) = (k, r)"
      using False Cons.prems by simp
    note IH = Cons.IH [OF eq]
    from IH have all: "\<forall>j<length ps. \<not> js_lt (d cur (ps ! j)) r" by blast
    from IH consider
      (stay) "k = bi" "r = bd"
      | (move) "Suc i \<le> k" "k < Suc i + length ps" "r = d cur (ps ! (k - Suc i))" "js_lt r bd"
          "\<forall>j<k - Suc i. \<not> js_le (d cur (ps ! j)) r"
      by blast
    then show ?thesis
    proof cases
      case stay
      have a: "\<forall>j<length (p # ps). \<not> js_lt (d cur ((p # ps) ! j)) r"
        using all stay(2) False by (auto simp: nth_Cons split: nat.splits)
      show ?thesis using a stay by blast
    next
      case move
      have np: "\<not> js_lt ?dp r" using False move(4) js_lt_trans by blast
      have nl: "\<not> js_le ?dp r" using False move(4) js_le_lt_trans by blast
      have a: "\<forall>j<length (p # ps). \<not> js_lt (d cur ((p # ps) ! j)) r"
        using all np by (auto simp: nth_Cons split: nat.splits)
      have ki: "k - i = Suc (k - Suc i)" using move(1) by arith
      have b: "r = d cur ((p # ps) ! (k - i))" using move(3) by (simp add: ki)
      have e: "\<forall>j<k - i. \<not> js_le (d cur ((p # ps) ! j)) r"
      proof (intro allI impI)
        fix j assume j: "j < k - i"
        show "\<not> js_le (d cur ((p # ps) ! j)) r"
        proof (cases j)
          case 0
          then show ?thesis using nl by simp
        next
          case (Suc j')
          then have "j' < k - Suc i" using j by simp
          then show ?thesis using move(5) Suc by simp
        qed
      qed
      have f: "i \<le> k" "k < i + length (p # ps)" using move(1,2) by simp_all
      show ?thesis using a b e f move(4) by blast
    qed
  qed
qed

lemma nearest_selected:
  assumes "ps \<noteq> []"
  shows "selected d cur ps (fst (nearest d cur ps))"
proof -
  obtain k r where kr: "nearest_scan d cur ps 0 (0, PosInf) = (k, r)"
    by (cases "nearest_scan d cur ps 0 (0, PosInf)")
  note g = nearest_scan_general [OF kr]
  have len: "0 < length ps" using assms by simp
  from g have all: "\<forall>j<length ps. \<not> js_lt (d cur (ps ! j)) r" by blast
  from g consider
    (stay) "k = 0" "r = PosInf"
    | (move) "k < length ps" "r = d cur (ps ! k)" "js_lt r PosInf"
        "\<forall>j<k. \<not> js_le (d cur (ps ! j)) r"
    by auto
  then have "selected d cur ps k"
  proof cases
    case stay
    then show ?thesis using all len by (simp add: selected_def)
  next
    case move
    have some: "\<not> (\<forall>j<length ps. \<not> js_lt (d cur (ps ! j)) PosInf)"
      using move(1,2,3) by blast
    have "js_lt (d cur (ps ! k)) PosInf \<and>
            (\<forall>j<length ps. \<not> js_lt (d cur (ps ! j)) (d cur (ps ! k))) \<and>
            (\<forall>j<k. \<not> js_le (d cur (ps ! j)) (d cur (ps ! k)))"
      using move all by simp
    then show ?thesis using move(1) unfolding selected_def if_not_P [OF some] by blast
  qed
  then show ?thesis using kr by (simp add: nearest_def)
qed

lemma selected_first_nearest:
  assumes "\<forall>p \<in> set ps. d cur p \<noteq> NaN" and "selected d cur ps k"
  shows "first_nearest d cur ps k"
proof -
  have k: "k < length ps" using assms(2) by (simp add: selected_def)
  have nn: "\<forall>j<length ps. d cur (ps ! j) \<noteq> NaN" using assms(1) by simp
  show ?thesis
  proof (cases "\<forall>j<length ps. \<not> js_lt (d cur (ps ! j)) PosInf")
    case True
    then have inf: "\<forall>j<length ps. d cur (ps ! j) = PosInf" using nn by (simp add: not_lt_PosInf)
    have "k = 0" using assms(2) True by (simp add: selected_def)
    then show ?thesis using inf k by (simp add: first_nearest_def)
  next
    case False
    then have m: "\<forall>j<length ps. \<not> js_lt (d cur (ps ! j)) (d cur (ps ! k))"
      and e: "\<forall>j<k. \<not> js_le (d cur (ps ! j)) (d cur (ps ! k))"
      using assms(2) by (simp_all add: selected_def)
    have a: "\<forall>j<length ps. js_le (d cur (ps ! k)) (d cur (ps ! j))"
      using m nn k by (simp add: js_le_iff_not_lt)
    have b: "\<forall>j<k. js_lt (d cur (ps ! k)) (d cur (ps ! j))"
    proof (intro allI impI)
      fix j assume j: "j < k"
      then have jl: "j < length ps" using k by simp
      have "\<not> js_le (d cur (ps ! j)) (d cur (ps ! k))" using e j by blast
      then show "js_lt (d cur (ps ! k)) (d cur (ps ! j))"
        using nn jl k by (simp add: js_le_iff_not_lt)
    qed
    show ?thesis using k a b by (simp add: first_nearest_def)
  qed
qed

subsection \<open>Invariants of the loop\<close>

lemma route_loop_budget:
  "budgeted maxMeters \<Longrightarrow> \<not> js_gt used maxMeters \<Longrightarrow>
     \<not> js_gt (snd (route_loop distanceMeters add maxMeters current remaining acc used)) maxMeters"
proof (induction distanceMeters add maxMeters current remaining acc used rule: route_loop.induct)
  case (1 distanceMeters add maxMeters current remaining acc used)
  show ?case
  proof (cases "remaining = []")
    case True
    then show ?thesis using "1.prems" by (simp add: route_loop.simps)
  next
    case False
    show ?thesis
    proof (cases "js_gt (add used (snd (nearest distanceMeters current remaining))) maxMeters")
      case True
      then show ?thesis using False "1.prems"
        by (subst route_loop.simps) (simp add: Let_def)
    next
      case over: False
      then show ?thesis using False "1.prems" "1.IH" [OF False refl refl _ refl]
        by (subst route_loop.simps) (simp add: Let_def)
    qed
  qed
qed

lemma mset_splice1: "k < length xs \<Longrightarrow> add_mset (xs ! k) (mset (splice1 k xs)) = mset xs"
  unfolding splice1_def
  by (metis append_take_drop_id Cons_nth_drop_Suc mset.simps(2) mset_append union_mset_add_mset_right)

lemma route_loop_mset:
  "mset (fst (route_loop distanceMeters add maxMeters current remaining acc used))
     \<subseteq># mset acc + mset remaining"
proof (induction distanceMeters add maxMeters current remaining acc used rule: route_loop.induct)
  case (1 distanceMeters add maxMeters current remaining acc used)
  show ?case
  proof (cases "remaining = []")
    case True
    then show ?thesis by (simp add: route_loop.simps)
  next
    case False
    let ?k = "fst (nearest distanceMeters current remaining)"
    let ?bd = "snd (nearest distanceMeters current remaining)"
    show ?thesis
    proof (cases "budgeted maxMeters \<and> js_gt (add used ?bd) maxMeters")
      case True
      then show ?thesis using False
        by (subst route_loop.simps) (simp add: Let_def)
    next
      case go: False
      have k: "?k < length remaining" using False by (rule nearest_idx)
      have "mset (fst (route_loop distanceMeters add maxMeters (remaining ! ?k)
               (splice1 ?k remaining) (acc @ [remaining ! ?k]) (add used ?bd)))
            \<subseteq># mset (acc @ [remaining ! ?k]) + mset (splice1 ?k remaining)"
        by (rule "1.IH" [OF False refl refl go refl])
      also have "\<dots> = mset acc + mset remaining"
        using mset_splice1 [OF k] by simp
      finally show ?thesis using False go
        by (subst route_loop.simps) (simp add: Let_def)
    qed
  qed
qed

lemma set_splice1: "set (splice1 k xs) \<subseteq> set xs"
  unfolding splice1_def using set_take_subset [of k xs] set_drop_subset [of "Suc k" xs] by auto

lemma route_loop_chain:
  "(\<forall>q \<in> insert current (set remaining). \<forall>p \<in> set remaining. d q p \<noteq> NaN) \<Longrightarrow>
   \<exists>r. fst (route_loop d add maxMeters current remaining acc used) = acc @ r \<and>
       greedy_chain d current remaining r"
proof (induction d add maxMeters current remaining acc used rule: route_loop.induct)
  case (1 d add maxMeters current remaining acc used)
  show ?case
  proof (cases "remaining = []")
    case True
    then show ?thesis by (simp add: route_loop.simps)
  next
    case False
    let ?k = "fst (nearest d current remaining)"
    let ?bd = "snd (nearest d current remaining)"
    show ?thesis
    proof (cases "budgeted maxMeters \<and> js_gt (add used ?bd) maxMeters")
      case True
      then have "fst (route_loop d add maxMeters current remaining acc used) = acc"
        using False by (subst route_loop.simps) (simp add: Let_def)
      then show ?thesis by simp
    next
      case go: False
      have k: "?k < length remaining" using False by (rule nearest_idx)
      have nn: "\<forall>p \<in> set remaining. d current p \<noteq> NaN" using "1.prems" by simp
      have fn: "first_nearest d current remaining ?k"
        using nearest_first_nearest [of remaining d current] False nn by simp
      have mem: "remaining ! ?k \<in> set remaining" using k by simp
      have sub: "set (splice1 ?k remaining) \<subseteq> set remaining" by (rule set_splice1)
      have pre: "\<forall>q \<in> insert (remaining ! ?k) (set (splice1 ?k remaining)).
                   \<forall>p \<in> set (splice1 ?k remaining). d q p \<noteq> NaN"
        using "1.prems" mem sub by blast
      obtain r where r: "fst (route_loop d add maxMeters (remaining ! ?k) (splice1 ?k remaining)
                 (acc @ [remaining ! ?k]) (add used ?bd)) = (acc @ [remaining ! ?k]) @ r"
          and ch: "greedy_chain d (remaining ! ?k) (splice1 ?k remaining) r"
        using "1.IH" [OF False refl refl go refl pre] by blast
      have "fst (route_loop d add maxMeters current remaining acc used) = acc @ (remaining ! ?k # r)"
        using False go r by (subst route_loop.simps) (simp add: Let_def)
      moreover have "greedy_chain d current remaining (remaining ! ?k # r)"
        using k fn ch by auto
      ultimately show ?thesis by blast
    qed
  qed
qed

lemma route_buildOptimizedRoute:
  "route (buildOptimizedRoute d add origin points maxMeters)
     = fst (route_loop d add maxMeters origin points [] (Fin 0))"
  by (cases "route_loop d add maxMeters origin points [] (Fin 0)")
     (simp add: buildOptimizedRoute_def)

lemma usedMeters_buildOptimizedRoute:
  "usedMeters (buildOptimizedRoute d add origin points maxMeters)
     = snd (route_loop d add maxMeters origin points [] (Fin 0))"
  by (cases "route_loop d add maxMeters origin points [] (Fin 0)")
     (simp add: buildOptimizedRoute_def)

lemma route_loop_selection_chain:
  "\<exists>r. fst (route_loop d add maxMeters current remaining acc used) = acc @ r \<and>
       selection_chain d current remaining r"
proof (induction d add maxMeters current remaining acc used rule: route_loop.induct)
  case (1 d add maxMeters current remaining acc used)
  show ?case
  proof (cases "remaining = []")
    case True
    then show ?thesis by (simp add: route_loop.simps)
  next
    case False
    let ?k = "fst (nearest d current remaining)"
    let ?bd = "snd (nearest d current remaining)"
    show ?thesis
    proof (cases "budgeted maxMeters \<and> js_gt (add used ?bd) maxMeters")
      case True
      then have "fst (route_loop d add maxMeters current remaining acc used) = acc"
        using False by (subst route_loop.simps) (simp add: Let_def)
      then show ?thesis by simp
    next
      case go: False
      have k: "?k < length remaining" using False by (rule nearest_idx)
      have sel: "selected d current remaining ?k" using False by (rule nearest_selected)
      obtain r where r: "fst (route_loop d add maxMeters (remaining ! ?k) (splice1 ?k remaining)
                 (acc @ [remaining ! ?k]) (add used ?bd)) = (acc @ [remaining ! ?k]) @ r"
          and ch: "selection_chain d (remaining ! ?k) (splice1 ?k remaining) r"
        using "1.IH" [OF False refl refl go refl] by blast
      have "fst (route_loop d add maxMeters current remaining acc used) = acc @ (remaining ! ?k # r)"
        using False go r by (subst route_loop.simps) (simp add: Let_def)
      moreover have "selection_chain d current remaining (remaining ! ?k # r)"
        using k sel ch by auto
      ultimately show ?thesis by blast
    qed
  qed
qed

lemma nearest_counted:
  assumes "ps \<noteq> []"
  shows "snd (nearest d cur ps) = counted d cur (ps ! fst (nearest d cur ps))"
proof -
  obtain k r where kr: "nearest_scan d cur ps 0 (0, PosInf) = (k, r)"
    by (cases "nearest_scan d cur ps 0 (0, PosInf)")
  note g = nearest_scan_general [OF kr]
  have len: "0 < length ps" using assms by simp
  from g have all: "\<forall>j<length ps. \<not> js_lt (d cur (ps ! j)) r" by blast
  from g consider
    (stay) "k = 0" "r = PosInf"
    | (move) "k < length ps" "r = d cur (ps ! k)" "js_lt r PosInf"
    by auto
  then have "r = counted d cur (ps ! k)"
  proof cases
    case stay
    then have "\<not> js_lt (d cur (ps ! 0)) PosInf" using all len by blast
    then show ?thesis using stay by (simp add: counted_def)
  next
    case move
    then show ?thesis by (simp add: counted_def)
  qed
  then show ?thesis using kr by (simp add: nearest_def)
qed

lemma counted_number: "d a b \<noteq> NaN \<Longrightarrow> counted d a b = d a b"
  by (cases "d a b") (simp_all add: counted_def)

lemma legs_counted:
  "(\<forall>q \<in> insert cur S. \<forall>p \<in> S. d q p \<noteq> NaN) \<Longrightarrow> set r \<subseteq> S \<Longrightarrow>
   legs (counted d) cur r = legs d cur r"
proof (induction r arbitrary: cur)
  case Nil
  then show ?case by simp
next
  case (Cons p r)
  have p: "p \<in> S" using Cons.prems(2) by simp
  have "d cur p \<noteq> NaN" using Cons.prems(1) p by blast
  then have h: "counted d cur p = d cur p" by (rule counted_number)
  have "\<forall>q \<in> insert p S. \<forall>p' \<in> S. d q p' \<noteq> NaN" using Cons.prems(1) p by blast
  moreover have "set r \<subseteq> S" using Cons.prems(2) by simp
  ultimately have "legs (counted d) p r = legs d p r" by (rule Cons.IH)
  then show ?case using h by simp
qed

lemma route_loop_legs:
  "\<exists>r. route_loop d add maxMeters current remaining acc used
          = (acc @ r, foldl add used (legs (counted d) current r)) \<and>
       (budgeted maxMeters \<and> \<not> js_gt used maxMeters \<longrightarrow>
          (\<forall>n. \<not> js_gt (foldl add used (take n (legs (counted d) current r))) maxMeters))"
proof (induction d add maxMeters current remaining acc used rule: route_loop.induct)
  case (1 d add maxMeters current remaining acc used)
  show ?case
  proof (cases "remaining = []")
    case True
    then have "route_loop d add maxMeters current remaining acc used
          = (acc @ [], foldl add used (legs (counted d) current []))"
      by (simp add: route_loop.simps)
    moreover have "budgeted maxMeters \<and> \<not> js_gt used maxMeters \<longrightarrow>
          (\<forall>n. \<not> js_gt (foldl add used (take n (legs (counted d) current []))) maxMeters)"
      by simp
    ultimately show ?thesis by blast
  next
    case False
    let ?k = "fst (nearest d current remaining)"
    let ?bd = "snd (nearest d current remaining)"
    show ?thesis
    proof (cases "budgeted maxMeters \<and> js_gt (add used ?bd) maxMeters")
      case True
      then have "route_loop d add maxMeters current remaining acc used
          = (acc @ [], foldl add used (legs (counted d) current []))"
        using False by (subst route_loop.simps) (simp add: Let_def)
      moreover have "budgeted maxMeters \<and> \<not> js_gt used maxMeters \<longrightarrow>
          (\<forall>n. \<not> js_gt (foldl add used (take n (legs (counted d) current []))) maxMeters)"
        by simp
      ultimately show ?thesis by blast
    next
      case go: False
      let ?next = "remaining ! ?k"
      have bd: "?bd = counted d current ?next" using False by (rule nearest_counted)
      obtain r where r: "route_loop d add maxMeters ?next (splice1 ?k remaining)
                 (acc @ [?next]) (add used ?bd)
               = ((acc @ [?next]) @ r, foldl add (add used ?bd) (legs (counted d) ?next r))"
          and b: "budgeted maxMeters \<and> \<not> js_gt (add used ?bd) maxMeters \<longrightarrow>
             (\<forall>n. \<not> js_gt (foldl add (add used ?bd) (take n (legs (counted d) ?next r))) maxMeters)"
        using "1.IH" [OF False refl refl go refl] by blast
      have eq: "route_loop d add maxMeters current remaining acc used
          = (acc @ (?next # r), foldl add used (legs (counted d) current (?next # r)))"
        using False go r bd by (subst route_loop.simps) (simp add: Let_def)
      have bound: "\<not> js_gt (foldl add used (take n (legs (counted d) current (?next # r)))) maxMeters"
        if bud: "budgeted maxMeters" and u: "\<not> js_gt used maxMeters" for n
      proof (cases n)
        case 0
        then show ?thesis using u by simp
      next
        case (Suc n')
        have "\<not> js_gt (add used ?bd) maxMeters" using go bud by blast
        then have "\<not> js_gt (foldl add (add used ?bd) (take n' (legs (counted d) ?next r))) maxMeters"
          using b bud by blast
        then show ?thesis using Suc bd by simp
      qed
      show ?thesis using eq bound by blast
    qed
  qed
qed


lemma route_loop_set:
  "set (fst (route_loop d add maxMeters current remaining acc used)) \<subseteq> set acc \<union> set remaining"
  using set_mset_mono [OF route_loop_mset [of d add maxMeters current remaining acc used]]
  by simp

lemma distinct_mset_sub:
  assumes "mset xs \<subseteq># mset ys" and "distinct ys"
  shows "distinct xs"
proof -
  have le1: "count (mset xs) a \<le> 1" for a
  proof -
    have "count (mset xs) a \<le> count (mset ys) a"
      using assms(1) by (rule mset_subset_eq_count)
    also have "\<dots> \<le> 1"
      using assms(2) by (simp add: distinct_count_atmost_1)
    finally show ?thesis .
  qed
  have "count (mset xs) a = (if a \<in> set xs then 1 else 0)" for a
  proof (cases "a \<in> set xs")
    case True
    then have pos: "0 < count (mset xs) a" by simp
    have "count (mset xs) a = 1" using pos le1 [of a] by arith
    then show ?thesis using True by simp
  next
    case False
    then show ?thesis by simp
  qed
  then show ?thesis by (simp add: distinct_count_atmost_1)
qed

subsection \<open>Clamping\<close>


lemma js_round_int: "js_round (of_int k) = of_int k"
proof -
  have "\<lfloor>(of_int k :: real) + 1 / 2\<rfloor> = k" by linarith
  then show ?thesis by (simp add: js_round_def)
qed





lemma clampInt_kept:
  "to_number P n = Fin (of_int k) \<Longrightarrow> 0 \<le> k \<Longrightarrow> k \<le> 10 \<Longrightarrow> clampInt P n 0 10 0 = of_int k"
  by (simp add: clampInt_def js_round_int)

subsection \<open>The stored state\<close>

lemma loadState_failures:
  "loadState Unreadable = JObj [] \<and> loadState Missing = JObj [] \<and> loadState Unparseable = JObj []"
  by (simp add: loadState_def)

lemma save_click_obj:
  "loadState st = JObj fs \<Longrightarrow>
   save_click P st key v w m c = Inr (Parsed (JObj (AList.update key (click_record P v w m c) fs)))"
  by (simp add: save_click_def saveState_def)

lemma read_default: "map_of fs key = None \<Longrightarrow> read_record (JObj fs) key = Inr default_record"
  by (simp add: read_record_def)

lemma save_clicks_other_keys:
  "loadState st = JObj fs \<Longrightarrow> map_of fs key = None \<Longrightarrow> key \<notin> fst ` set clicks \<Longrightarrow>
   save_clicks P st clicks = Inr st' \<Longrightarrow>
   \<exists>fs'. loadState st' = JObj fs' \<and> map_of fs' key = None"
proof (induction clicks arbitrary: st fs)
  case Nil
  then show ?case by simp
next
  case (Cons click clicks)
  obtain k v w m c where click: "click = (k, v, w, m, c)" by (cases click)
  let ?fs = "AList.update k (click_record P v w m c) fs"
  let ?st = "Parsed (JObj ?fs)"
  have k: "k \<noteq> key" using Cons.prems(3) click by auto
  have step: "save_click P st k v w m c = Inr ?st" using Cons.prems(1) by (rule save_click_obj)
  have l: "loadState ?st = JObj ?fs" by (simp add: loadState_def)
  have n: "map_of ?fs key = None" using Cons.prems(2) k by (simp add: update_conv')
  have r: "key \<notin> fst ` set clicks" using Cons.prems(3) by auto
  have run: "save_clicks P ?st clicks = Inr st'"
    using step click Cons.prems(4) by simp
  show ?case by (rule Cons.IH [OF l n r run])
qed

lemma read_record_readable:
  "state \<noteq> JNull \<Longrightarrow> state \<noteq> JUndefined \<Longrightarrow> \<exists>cur. read_record state key = Inr cur"
  by (cases state) (simp_all add: read_record_def)

subsection \<open>The filters and the markers\<close>

lemma filter_err_total:
  "(\<And>x. x \<in> set xs \<Longrightarrow> p x = Inr (q x)) \<Longrightarrow> filter_err p xs = Inr (filter q xs)"
  by (induction xs) simp_all

lemma status_test_readable:
  assumes "state \<noteq> JNull" and "state \<noteq> JUndefined"
  shows "\<exists>entry. get_prop state key = Inr entry"
  using assms by (cases state) simp_all

lemma status_test_visited:
  assumes "state \<noteq> JNull" and "state \<noteq> JUndefined"
  shows "status_test P ''VISITED'' state f = Inr (visited_in P state f)"
    and "status_test P ''NOT_VISITED'' state f = Inr (\<not> visited_in P state f)"
proof -
  obtain entry where e: "get_prop state (keyForFallaNumber P (falla_number f)) = Inr entry"
    using status_test_readable [OF assms] by blast
  then have o: "opt_prop state (keyForFallaNumber P (falla_number f)) = entry"
    by (simp add: opt_prop_def)
  show "status_test P ''VISITED'' state f = Inr (visited_in P state f)"
    using e o by (simp add: status_test_def visited_in_def Let_def)
  show "status_test P ''NOT_VISITED'' state f = Inr (\<not> visited_in P state f)"
    using e o by (simp add: status_test_def visited_in_def Let_def)
qed

lemma js_includes_iff: "js_includes hay q = (\<exists>pre suf. hay = pre @ q @ suf)"
proof (induction hay)
  case Nil
  then show ?case by auto
next
  case (Cons h hay)
  show ?case
  proof
    assume "js_includes (h # hay) q"
    then consider "take (length q) (h # hay) = q" | "js_includes hay q" by auto
    then show "\<exists>pre suf. h # hay = pre @ q @ suf"
    proof cases
      case 1
      then have "h # hay = [] @ q @ drop (length q) (h # hay)"
        by (metis append_Nil append_take_drop_id)
      then show ?thesis by blast
    next
      case 2
      then obtain pre suf where "hay = pre @ q @ suf" using Cons.IH by blast
      then have "h # hay = (h # pre) @ q @ suf" by simp
      then show ?thesis by blast
    qed
  next
    assume "\<exists>pre suf. h # hay = pre @ q @ suf"
    then obtain pre suf where eq: "h # hay = pre @ q @ suf" by blast
    show "js_includes (h # hay) q"
    proof (cases pre)
      case Nil
      then have "take (length q) (h # hay) = q" using eq by simp
      then show ?thesis by simp
    next
      case (Cons p pre')
      then have "hay = pre' @ q @ suf" using eq by simp
      then have "js_includes hay q" using Cons.IH by blast
      then show ?thesis by simp
    qed
  qed
qed






lemma normalizeSection_text:
  assumes "\<not> truthy x \<or> (\<exists>t. x = JStr t)"
  shows "\<exists>sec. normalizeSection P x = Inr sec"
  using assms by (auto simp: normalizeSection_def Let_def)

lemma render_loop_total:
  assumes "state \<noteq> JNull" and "state \<noteq> JUndefined"
    and "\<And>f. f \<in> set fallas \<Longrightarrow> \<not> truthy (section' f) \<or> (\<exists>t. section' f = JStr t)"
  shows "\<exists>ms. render_loop P state fallas = Inr ms"
  using assms(3)
proof (induction fallas)
  case Nil
  then show ?case by simp
next
  case (Cons f fallas)
  then obtain ms where ms: "render_loop P state fallas = Inr ms" by auto
  obtain cur where
    cur: "read_record state (keyForFallaNumber P (JNum (to_number P (falla_number f)))) = Inr cur"
    using read_record_readable [OF assms(1,2)] by blast
  have "\<not> truthy (section' f) \<or> (\<exists>t. section' f = JStr t)" using Cons.prems by simp
  then obtain sec where "normalizeSection P (section' f) = Inr sec"
    using normalizeSection_text by blast
  then show ?case using ms cur by (simp add: Let_def createFallaIcon_def)
qed

lemma render_loop_section_not_text:
  "renderMarkers test_platform [falla_plaza\<lparr>section' := JNum (Fin 12)\<rparr>] Missing = Inl TypeError"
  by (simp add: renderMarkers_def loadState_def coordinate_def falla_plaza_def
      test_platform_def read_record_def keyForFallaNumber_def default_record_def opt_prop_def
      createFallaIcon_def normalizeSection_def ascii_lower_def Let_def)

lemma section_click_keeps_selection:
  assumes "i < length (sec_cbs p)"
  shows "getSelectedSections (sec_cbs (click_section i p)) \<noteq> Sections []"
proof -
  let ?cbs = "(sec_cbs p)[i := (fst (sec_cbs p ! i), \<not> snd (sec_cbs p ! i))]"
  have ne: "?cbs \<noteq> []" using assms by auto
  show ?thesis
  proof (cases "list_all (\<lambda>cb. \<not> snd cb) ?cbs")
    case True
    then have "sec_cbs (click_section i p) = map (\<lambda>cb. (fst cb, True)) ?cbs"
      using assms by (simp add: click_section_def section_changed_def Let_def)
    then show ?thesis using ne by (simp add: getSelectedSections_def Let_def o_def)
  next
    case False
    then have s: "sec_cbs (click_section i p) = ?cbs"
      using assms by (simp add: click_section_def section_changed_def Let_def)
    from False obtain cb where "cb \<in> set ?cbs" "snd cb" by (auto simp: list_all_iff)
    then have "map fst (filter snd ?cbs) \<noteq> []" by (auto simp: filter_empty_conv)
    then show ?thesis unfolding s by (simp add: getSelectedSections_def Let_def)
  qed
qed

section \<open>The claims\<close>

text \<open>
  C1. For a budget \<open>maxMeters\<close> that is a finite positive number, the \<open>usedMeters\<close> of
  the returned route never exceeds the budget, whatever the origin, the candidates, the
  distance function and the rounding of the addition are; and \<open>usedMeters\<close> is the
  cumulative leg distance of the returned route: the legs of the route, walked from the
  origin, added up from 0 in order, each leg as the loop counts it. The sum up to any stop
  of the route is within the budget as well. Where no distance is NaN a leg is counted as
  its distance, so \<open>usedMeters\<close> is the sum of the distances along the route. The builder
  stops before it adds a leg: in any state of the loop where the leg to the best candidate
  would push the sum past the budget, the loop returns the route and the sum it has, with
  nothing added.
\<close>

theorem usedMeters_within_budget:
  assumes "0 < b"
  shows "\<not> js_gt (usedMeters (buildOptimizedRoute distanceMeters add origin points (Fin b))) (Fin b) \<and>
    usedMeters (buildOptimizedRoute distanceMeters add origin points (Fin b))
      = foldl add (Fin 0) (legs (counted distanceMeters) origin
          (route (buildOptimizedRoute distanceMeters add origin points (Fin b)))) \<and>
    (\<forall>n. \<not> js_gt (foldl add (Fin 0) (take n (legs (counted distanceMeters) origin
          (route (buildOptimizedRoute distanceMeters add origin points (Fin b)))))) (Fin b)) \<and>
    ((\<forall>q \<in> insert origin (set points). \<forall>p \<in> set points. distanceMeters q p \<noteq> NaN) \<longrightarrow>
       usedMeters (buildOptimizedRoute distanceMeters add origin points (Fin b))
         = foldl add (Fin 0) (legs distanceMeters origin
             (route (buildOptimizedRoute distanceMeters add origin points (Fin b)))) \<and>
       (\<forall>n. \<not> js_gt (foldl add (Fin 0) (take n (legs distanceMeters origin
             (route (buildOptimizedRoute distanceMeters add origin points (Fin b)))))) (Fin b))) \<and>
    (\<forall>current remaining acc used.
       remaining \<noteq> [] \<and> js_gt (add used (snd (nearest distanceMeters current remaining))) (Fin b) \<longrightarrow>
       route_loop distanceMeters add (Fin b) current remaining acc used = (acc, used))"
proof -
  let ?R = "buildOptimizedRoute distanceMeters add origin points (Fin b)"
  have bud: "budgeted (Fin b)" using assms by (simp add: budgeted_def js_gt_def)
  have zero: "\<not> js_gt (Fin 0) (Fin b)" using assms by (simp add: js_gt_def)
  have "\<not> js_gt (snd (route_loop distanceMeters add (Fin b) origin points [] (Fin 0))) (Fin b)"
    using bud zero by (rule route_loop_budget)
  then have first: "\<not> js_gt (usedMeters ?R) (Fin b)"
    by (simp add: usedMeters_buildOptimizedRoute)
  obtain r where r: "route_loop distanceMeters add (Fin b) origin points [] (Fin 0)
        = ([] @ r, foldl add (Fin 0) (legs (counted distanceMeters) origin r))"
      and pre: "budgeted (Fin b) \<and> \<not> js_gt (Fin 0) (Fin b) \<longrightarrow>
        (\<forall>n. \<not> js_gt (foldl add (Fin 0) (take n (legs (counted distanceMeters) origin r))) (Fin b))"
    using route_loop_legs [of distanceMeters add "Fin b" origin points "[]" "Fin 0"] by blast
  have rt: "route ?R = r" using r by (simp add: route_buildOptimizedRoute)
  have sum: "usedMeters ?R = foldl add (Fin 0) (legs (counted distanceMeters) origin (route ?R))"
    using r by (simp add: usedMeters_buildOptimizedRoute route_buildOptimizedRoute)
  have prefix: "\<not> js_gt (foldl add (Fin 0) (take n (legs (counted distanceMeters) origin (route ?R)))) (Fin b)"
    for n
    using pre bud zero rt by simp
  have sub: "set (route ?R) \<subseteq> set points"
    using route_loop_set [of distanceMeters add "Fin b" origin points "[]" "Fin 0"]
    by (simp add: route_buildOptimizedRoute)
  have plain: "legs (counted distanceMeters) origin (route ?R) = legs distanceMeters origin (route ?R)"
    if "\<forall>q \<in> insert origin (set points). \<forall>p \<in> set points. distanceMeters q p \<noteq> NaN"
    using that sub by (rule legs_counted)
  have stop: "route_loop distanceMeters add (Fin b) current remaining acc used = (acc, used)"
    if "remaining \<noteq> []" "js_gt (add used (snd (nearest distanceMeters current remaining))) (Fin b)"
    for current remaining acc used
    using that bud by (subst route_loop.simps) (simp add: Let_def)
  show ?thesis
  proof (intro conjI allI impI)
    show "\<not> js_gt (usedMeters ?R) (Fin b)" by (rule first)
    show "usedMeters ?R = foldl add (Fin 0) (legs (counted distanceMeters) origin (route ?R))"
      by (rule sum)
    show "\<not> js_gt (foldl add (Fin 0) (take n (legs (counted distanceMeters) origin (route ?R)))) (Fin b)"
      for n by (rule prefix)
    show "usedMeters ?R = foldl add (Fin 0) (legs distanceMeters origin (route ?R))"
      if "\<forall>q \<in> insert origin (set points). \<forall>p \<in> set points. distanceMeters q p \<noteq> NaN"
      using sum plain [OF that] by simp
    show "\<not> js_gt (foldl add (Fin 0) (take n (legs distanceMeters origin (route ?R)))) (Fin b)"
      if "\<forall>q \<in> insert origin (set points). \<forall>p \<in> set points. distanceMeters q p \<noteq> NaN"
      for n
      using prefix [of n] plain [OF that] by simp
    show "route_loop distanceMeters add (Fin b) current remaining acc used = (acc, used)"
      if "remaining \<noteq> [] \<and> js_gt (add used (snd (nearest distanceMeters current remaining))) (Fin b)"
      for current remaining acc used
      using that stop by blast
  qed
qed

theorem usedMeters_within_budget_witness:
  "buildOptimizedRoute line_distance exact_add 0 [100, 200, 1000] (Fin 250)
       = \<lparr>route = [100, 200], usedMeters = Fin 200\<rparr> \<and>
   legs line_distance 0 [100, 200] = [Fin 100, Fin 100] \<and>
   usedMeters (buildOptimizedRoute line_distance exact_add 0 [100, 200, 1000] (Fin 250))
     = foldl exact_add (Fin 0) (legs line_distance 0
         (route (buildOptimizedRoute line_distance exact_add 0 [100, 200, 1000] (Fin 250)))) \<and>
   \<not> js_gt (foldl exact_add (Fin 0) (take 1 (legs line_distance 0
         (route (buildOptimizedRoute line_distance exact_add 0 [100, 200, 1000] (Fin 250)))))) (Fin 250) \<and>
   \<not> js_gt (usedMeters (buildOptimizedRoute line_distance exact_add 0 [100, 200, 1000] (Fin 250))) (Fin 250) \<and>
   route_loop line_distance exact_add (Fin 250) 200 [1000] [100, 200] (Fin 200) = ([100, 200], Fin 200)"
proof -
  have pos: "(0::real) < 250" by simp
  have over: "[1000::real] \<noteq> [] \<and>
      js_gt (exact_add (Fin 200) (snd (nearest line_distance 200 [1000]))) (Fin 250)"
    by (simp add: nearest_def line_distance_def js_gt_def)
  have numbers: "\<forall>q \<in> insert (0::real) (set [100, 200, 1000]). \<forall>p \<in> set [100, 200, 1000].
      line_distance q p \<noteq> NaN"
    by (simp add: line_distance_def)
  have run: "buildOptimizedRoute line_distance exact_add 0 [100, 200, 1000] (Fin 250)
       = \<lparr>route = [100, 200], usedMeters = Fin 200\<rparr>"
    by (simp add: buildOptimizedRoute_def route_loop.simps nearest_def line_distance_def splice1_def
      budgeted_def js_gt_def Let_def)
  have ls: "legs line_distance 0 [100, 200] = [Fin 100, Fin 100]"
    by (simp add: line_distance_def)
  note inst = usedMeters_within_budget [OF pos, of line_distance exact_add 0 "[100, 200, 1000]"]
  have a: "usedMeters (buildOptimizedRoute line_distance exact_add 0 [100, 200, 1000] (Fin 250))
     = foldl exact_add (Fin 0) (legs line_distance 0
         (route (buildOptimizedRoute line_distance exact_add 0 [100, 200, 1000] (Fin 250))))"
    using inst numbers by blast
  have b: "\<not> js_gt (foldl exact_add (Fin 0) (take 1 (legs line_distance 0
         (route (buildOptimizedRoute line_distance exact_add 0 [100, 200, 1000] (Fin 250)))))) (Fin 250)"
    using inst numbers by blast
  have c: "\<not> js_gt (usedMeters (buildOptimizedRoute line_distance exact_add 0 [100, 200, 1000] (Fin 250))) (Fin 250)"
    using inst by blast
  have d: "route_loop line_distance exact_add (Fin 250) 200 [1000] [100, 200] (Fin 200) = ([100, 200], Fin 200)"
    using inst over by blast
  show ?thesis using run ls a b c d by (intro conjI)
qed

text \<open>
  C2. At each step the builder takes the remaining candidate at the least distance from the
  current position, and of several candidates at that least distance the one that comes
  first in the remaining list. For distances that are numbers or infinities the returned
  route is a nearest-first chain from the origin over the candidates, and in every state of
  the loop the scan returns the first nearest index together with its distance. With no
  assumption on the distances the route is a chain of selected candidates, which says the
  same of the candidates whose distance is a number and passes over those whose distance
  is NaN.
\<close>

theorem nearest_first_selection:
  "selection_chain distanceMeters origin points
     (route (buildOptimizedRoute distanceMeters add origin points maxMeters)) \<and>
   ((\<forall>q \<in> insert origin (set points). \<forall>p \<in> set points. distanceMeters q p \<noteq> NaN) \<longrightarrow>
      greedy_chain distanceMeters origin points
        (route (buildOptimizedRoute distanceMeters add origin points maxMeters))) \<and>
   (\<forall>current remaining. remaining \<noteq> [] \<longrightarrow>
      selected distanceMeters current remaining (fst (nearest distanceMeters current remaining))) \<and>
   (\<forall>current remaining. remaining \<noteq> [] \<and> (\<forall>p \<in> set remaining. distanceMeters current p \<noteq> NaN) \<longrightarrow>
      first_nearest distanceMeters current remaining (fst (nearest distanceMeters current remaining)) \<and>
      snd (nearest distanceMeters current remaining)
        = distanceMeters current (remaining ! fst (nearest distanceMeters current remaining)))"
proof -
  let ?route = "route (buildOptimizedRoute distanceMeters add origin points maxMeters)"
  obtain r where "fst (route_loop distanceMeters add maxMeters origin points [] (Fin 0)) = [] @ r"
      and "selection_chain distanceMeters origin points r"
    using route_loop_selection_chain [of distanceMeters add maxMeters origin points "[]" "Fin 0"]
    by blast
  then have sel: "selection_chain distanceMeters origin points ?route"
    by (simp add: route_buildOptimizedRoute)
  have chain: "greedy_chain distanceMeters origin points ?route"
    if nn: "\<forall>q \<in> insert origin (set points). \<forall>p \<in> set points. distanceMeters q p \<noteq> NaN"
  proof -
    obtain r where "fst (route_loop distanceMeters add maxMeters origin points [] (Fin 0)) = [] @ r"
        and "greedy_chain distanceMeters origin points r"
      using route_loop_chain [OF nn] by blast
    then show ?thesis by (simp add: route_buildOptimizedRoute)
  qed
  have scan: "selected distanceMeters current remaining (fst (nearest distanceMeters current remaining))"
    if "remaining \<noteq> []" for current remaining
    using that by (rule nearest_selected)
  have step: "first_nearest distanceMeters current remaining (fst (nearest distanceMeters current remaining)) \<and>
       snd (nearest distanceMeters current remaining)
         = distanceMeters current (remaining ! fst (nearest distanceMeters current remaining))"
    if "remaining \<noteq> []" "\<forall>p \<in> set remaining. distanceMeters current p \<noteq> NaN"
    for current remaining
    using that by (rule nearest_first_nearest)
  show ?thesis using sel chain scan step by blast
qed

theorem nearest_first_selection_witness:
  "route (buildOptimizedRoute line_distance exact_add 0 [5, -5, 2, -2] PosInf) = [2, 5, -2, -5] \<and>
   greedy_chain line_distance 0 [5, -5, 2, -2]
     (route (buildOptimizedRoute line_distance exact_add 0 [5, -5, 2, -2] PosInf)) \<and>
   nearest line_distance 0 [5, -5, 2, -2] = (2, Fin 2) \<and>
   first_nearest line_distance 0 [5, -5, 2, -2] 2 \<and>
   selected line_distance 0 [5, -5, 2, -2] 2"
proof -
  have nn: "\<forall>q \<in> insert (0::real) (set [5, -5, 2, -2]). \<forall>p \<in> set [5, -5, 2, -2].
              line_distance q p \<noteq> NaN"
    by (simp add: line_distance_def)
  have ne: "[5, -5, 2, -2::real] \<noteq> [] \<and> (\<forall>p \<in> set [5, -5, 2, -2]. line_distance 0 p \<noteq> NaN)"
    by (simp add: line_distance_def)
  have run: "route (buildOptimizedRoute line_distance exact_add 0 [5, -5, 2, -2] PosInf) = [2, 5, -2, -5]"
    by (simp add: buildOptimizedRoute_def route_loop.simps nearest_def line_distance_def splice1_def
      budgeted_def js_gt_def Let_def)
  have nr: "nearest line_distance 0 [5, -5, 2, -2] = (2, Fin 2)"
    by (simp add: nearest_def line_distance_def)
  note inst = nearest_first_selection [of line_distance 0 "[5, -5, 2, -2]" exact_add PosInf]
  from inst nn have chain: "greedy_chain line_distance 0 [5, -5, 2, -2]
     (route (buildOptimizedRoute line_distance exact_add 0 [5, -5, 2, -2] PosInf))"
    by blast
  from inst ne have "first_nearest line_distance 0 [5, -5, 2, -2] (fst (nearest line_distance 0 [5, -5, 2, -2]))"
    by blast
  then have fn: "first_nearest line_distance 0 [5, -5, 2, -2] 2"
    by (simp only: nr fst_conv)
  from inst ne have "selected line_distance 0 [5, -5, 2, -2] (fst (nearest line_distance 0 [5, -5, 2, -2]))"
    by blast
  then have sl: "selected line_distance 0 [5, -5, 2, -2] 2"
    by (simp only: nr fst_conv)
  show ?thesis using run chain nr fn sl by (intro conjI)
qed

text \<open>
  C3. Saving a visit state under a key and reading the key back gives exactly the saved
  record, and a key that was never saved reads as the default record. The stored state is
  an object here: the item is missing, unreadable or unparseable (an empty object), or holds
  the text of an object, as every save writes it. The number fields hold texts that denote
  the two ratings, integers from 0 to 10. A key is never saved when the object has no
  property of that name, and it stays so through any run of saves under other keys.
\<close>

theorem saved_record_read_back:
  assumes "loadState st = JObj fs"
    and "to_number P (field_value m) = Fin (of_int major)" and "0 \<le> major" and "major \<le> 10"
    and "to_number P (field_value c) = Fin (of_int child)" and "0 \<le> child" and "child \<le> 10"
  shows "(\<exists>st'. save_click P st key v w m c = Inr st' \<and>
            read_record (loadState st') key
              = Inr (visit_record (checked_flag v) (checked_flag w) major child)) \<and>
         (map_of fs key = None \<longrightarrow> read_record (loadState st) key = Inr default_record) \<and>
         (\<forall>clicks st'. map_of fs key = None \<and> key \<notin> fst ` set clicks \<and>
             save_clicks P st clicks = Inr st' \<longrightarrow>
             read_record (loadState st') key = Inr default_record)"
proof -
  have rec: "click_record P v w m c = visit_record (checked_flag v) (checked_flag w) major child"
    using assms(2-7) by (simp add: click_record_def visit_record_def clampInt_kept)
  let ?st = "Parsed (JObj (AList.update key (click_record P v w m c) fs))"
  have "save_click P st key v w m c = Inr ?st" using assms(1) by (rule save_click_obj)
  moreover have "read_record (loadState ?st) key = Inr (visit_record (checked_flag v) (checked_flag w) major child)"
    by (simp add: loadState_def read_record_def update_conv' rec visit_record_def)
  ultimately have first: "\<exists>st'. save_click P st key v w m c = Inr st' \<and>
            read_record (loadState st') key
              = Inr (visit_record (checked_flag v) (checked_flag w) major child)"
    by blast
  have second: "read_record (loadState st) key = Inr default_record" if "map_of fs key = None"
    using that assms(1) by (simp add: read_default)
  have third: "read_record (loadState st') key = Inr default_record"
    if none: "map_of fs key = None" and other: "key \<notin> fst ` set clicks"
      and run: "save_clicks P st clicks = Inr st'"
    for clicks st'
  proof -
    obtain fs' where "loadState st' = JObj fs'" and "map_of fs' key = None"
      using save_clicks_other_keys [OF assms(1) none other run] by blast
    then show ?thesis by (simp add: read_default)
  qed
  show ?thesis using first second third by blast
qed

theorem saved_record_read_back_witness:
  "keyForFallaNumber test_platform (JNum (Fin 1)) = ''falla_1'' \<and>
   (\<exists>st'. save_click test_platform Missing ''falla_1'' (Some True) (Some False) (Some ''7'') (Some ''3'')
            = Inr st' \<and>
          read_record (loadState st') ''falla_1'' = Inr (visit_record True False 7 3)) \<and>
   read_record (loadState Missing) ''falla_999'' = Inr default_record"
proof -
  have l: "loadState Missing = JObj []" by (simp add: loadState_def)
  have m: "to_number test_platform (field_value (Some ''7'')) = Fin (of_int 7)"
    by (simp add: field_value_def test_platform_def)
  have c: "to_number test_platform (field_value (Some ''3'')) = Fin (of_int 3)"
    by (simp add: field_value_def test_platform_def)
  have k: "keyForFallaNumber test_platform (JNum (Fin 1)) = ''falla_1''"
    by (simp add: keyForFallaNumber_def test_platform_def)
  have none: "map_of ([] :: (string \<times> jsval) list) ''falla_999'' = None" by simp
  have a: "\<exists>st'. save_click test_platform Missing ''falla_1'' (Some True) (Some False) (Some ''7'') (Some ''3'')
            = Inr st' \<and>
          read_record (loadState st') ''falla_1'' = Inr (visit_record True False 7 3)"
    using saved_record_read_back [OF l m _ _ c, of "''falla_1''" "Some True" "Some False"]
    by (simp add: checked_flag_def)
  have b: "read_record (loadState Missing) ''falla_999'' = Inr default_record"
    using saved_record_read_back [OF l m _ _ c, of "''falla_999''"] none by simp
  show ?thesis using k a b by (intro conjI)
qed







text \<open>
  C6. \<open>loadState\<close> gives the empty object when the item is unreadable, missing or
  unparseable (lemma \<open>loadState_failures\<close>), and it never throws. It does not give a
  mapping for every state of the store: where the item holds the text \<open>null\<close>,
  \<open>JSON.parse\<close> succeeds, the \<open>catch\<close> does not run and \<open>loadState\<close> returns
  \<open>null\<close>; every reader of the state then throws a TypeError.
\<close>

theorem loadState_null_store:
  "loadState (Parsed JNull) = JNull \<and>
   read_record (loadState (Parsed JNull)) ''falla_1'' = Inl TypeError \<and>
   applyFilters test_platform [falla_plaza] [] ''VISITED'' [] (Parsed JNull) = Inl TypeError \<and>
   renderMarkers test_platform [falla_plaza] (Parsed JNull) = Inl TypeError \<and>
   save_click test_platform (Parsed JNull) ''falla_1'' (Some True) None (Some ''7'') (Some ''3'')
     = Inl TypeError"
  by (simp add: loadState_def read_record_def applyFilters_def status_filter_def text_filter_def
      section_filter_def getSelectedSections_def normalize_str_def test_platform_def
      status_test_def falla_plaza_def renderMarkers_def coordinate_def save_click_def Let_def)

text \<open>
  C7. With the sections and the text fixed, the fallas the status VISITED keeps and those
  NOT_VISITED keeps are disjoint, and together they are the fallas the status ALL keeps:
  they are the visited and the not visited ones of that list. This holds for every catalog
  and every stored state that is not \<open>null\<close> (reading a key of \<open>null\<close> throws).
\<close>

theorem visited_partition:
  assumes "loadState st \<noteq> JNull" and "loadState st \<noteq> JUndefined"
  shows "\<exists>V N A.
     applyFilters P allFallas textValue ''VISITED'' cbs st = Inr V \<and>
     applyFilters P allFallas textValue ''NOT_VISITED'' cbs st = Inr N \<and>
     applyFilters P allFallas textValue ''ALL'' cbs st = Inr A \<and>
     V = filter (visited_in P (loadState st)) A \<and>
     N = filter (\<lambda>f. \<not> visited_in P (loadState st) f) A \<and>
     set V \<inter> set N = {} \<and> set V \<union> set N = set A"
proof -
  let ?A = "text_filter P (normalize_str P textValue) (section_filter (getSelectedSections cbs) allFallas)"
  let ?state = "loadState st"
  have a: "applyFilters P allFallas textValue ''ALL'' cbs st = Inr ?A"
    by (simp add: applyFilters_def status_filter_def)
  have v: "applyFilters P allFallas textValue ''VISITED'' cbs st = Inr (filter (visited_in P ?state) ?A)"
    using filter_err_total [of ?A "status_test P ''VISITED'' ?state" "visited_in P ?state"]
      status_test_visited(1) [OF assms]
    by (simp add: applyFilters_def status_filter_def)
  have n: "applyFilters P allFallas textValue ''NOT_VISITED'' cbs st
             = Inr (filter (\<lambda>f. \<not> visited_in P ?state f) ?A)"
    using filter_err_total [of ?A "status_test P ''NOT_VISITED'' ?state" "\<lambda>f. \<not> visited_in P ?state f"]
      status_test_visited(2) [OF assms]
    by (simp add: applyFilters_def status_filter_def)
  have d: "set (filter (visited_in P ?state) ?A) \<inter> set (filter (\<lambda>f. \<not> visited_in P ?state f) ?A) = {}"
    by auto
  have u: "set (filter (visited_in P ?state) ?A) \<union> set (filter (\<lambda>f. \<not> visited_in P ?state f) ?A) = set ?A"
    by auto
  show ?thesis using a v n d u by blast
qed

theorem visited_partition_witness:
  "applyFilters test_platform [falla_plaza, falla_mercado] [] ''VISITED'' [] state_plaza_visited
     = Inr [falla_plaza] \<and>
   applyFilters test_platform [falla_plaza, falla_mercado] [] ''NOT_VISITED'' [] state_plaza_visited
     = Inr [falla_mercado] \<and>
   applyFilters test_platform [falla_plaza, falla_mercado] [] ''ALL'' [] state_plaza_visited
     = Inr [falla_plaza, falla_mercado] \<and>
   set [falla_plaza] \<inter> set [falla_mercado] = {} \<and>
   set [falla_plaza] \<union> set [falla_mercado] = set [falla_plaza, falla_mercado]"
proof -
  have l: "loadState state_plaza_visited \<noteq> JNull" "loadState state_plaza_visited \<noteq> JUndefined"
    by (simp_all add: loadState_def state_plaza_visited_def)
  have vp: "visited_in test_platform (loadState state_plaza_visited) falla_plaza"
    by (simp add: visited_in_def loadState_def state_plaza_visited_def falla_plaza_def
        keyForFallaNumber_def test_platform_def opt_prop_def visit_record_def)
  have vm: "\<not> visited_in test_platform (loadState state_plaza_visited) falla_mercado"
    by (simp add: visited_in_def loadState_def state_plaza_visited_def falla_mercado_def
        keyForFallaNumber_def test_platform_def opt_prop_def visit_record_def)
  have ea: "applyFilters test_platform [falla_plaza, falla_mercado] [] ''ALL'' [] state_plaza_visited
     = Inr [falla_plaza, falla_mercado]"
    by (simp add: applyFilters_def status_filter_def text_filter_def section_filter_def
        getSelectedSections_def normalize_str_def test_platform_def)
  obtain V N A where
    v: "applyFilters test_platform [falla_plaza, falla_mercado] [] ''VISITED'' [] state_plaza_visited = Inr V"
    and n: "applyFilters test_platform [falla_plaza, falla_mercado] [] ''NOT_VISITED'' [] state_plaza_visited = Inr N"
    and a: "applyFilters test_platform [falla_plaza, falla_mercado] [] ''ALL'' [] state_plaza_visited = Inr A"
    and vf: "V = filter (visited_in test_platform (loadState state_plaza_visited)) A"
    and nf: "N = filter (\<lambda>f. \<not> visited_in test_platform (loadState state_plaza_visited) f) A"
    and d: "set V \<inter> set N = {}" and u: "set V \<union> set N = set A"
    using visited_partition [OF l, of test_platform "[falla_plaza, falla_mercado]" "[]" "[]"]
    by blast
  have A: "A = [falla_plaza, falla_mercado]" using a ea by simp
  have V: "V = [falla_plaza]" using vf A vp vm by simp
  have N: "N = [falla_mercado]" using nf A vp vm by simp
  show ?thesis using v n a d u unfolding A V N by (intro conjI)
qed

text \<open>
  C8. As the claim is worded, the haystack is the plain concatenation of name, number and
  section. The code joins the three by single spaces: a falla passes the text filter
  exactly when the text of the field is empty or the normalized text is a substring of the
  normalized haystack of the falla, which is its name, a space, its number, a space and its
  section. The platform's lower-casing, decomposition and stripping are taken to give the
  empty text for the empty text.
\<close>

theorem text_predicate:
  assumes "normalize_str P [] = []"
  shows "(\<forall>f \<in> set fallas.
            f \<in> set (text_filter P (normalize_str P textValue) fallas) \<longleftrightarrow>
            (textValue = [] \<or>
             (\<exists>pre suf. haystack P f = pre @ normalize_str P textValue @ suf))) \<and>
         text_filter P (normalize_str P textValue) fallas
           = filter (\<lambda>f. textValue = [] \<or>
                          (\<exists>pre suf. haystack P f = pre @ normalize_str P textValue @ suf)) fallas \<and>
         applyFilters P fallas textValue ''ALL'' [] st
           = Inr (filter (\<lambda>f. textValue = [] \<or>
                          (\<exists>pre suf. haystack P f = pre @ normalize_str P textValue @ suf)) fallas)"
proof -
  let ?q = "normalize_str P textValue"
  have main: "text_filter P ?q fallas
           = filter (\<lambda>f. textValue = [] \<or> (\<exists>pre suf. haystack P f = pre @ ?q @ suf)) fallas"
  proof (cases "?q = []")
    case True
    have "\<exists>pre suf. haystack P f = pre @ ?q @ suf" for f
      using True by (metis append_Nil)
    then show ?thesis using True by (simp add: text_filter_def)
  next
    case False
    then have "textValue \<noteq> []" using assms by auto
    then show ?thesis using False by (simp add: text_filter_def js_includes_iff)
  qed
  have each: "\<forall>f \<in> set fallas.
            f \<in> set (text_filter P ?q fallas) \<longleftrightarrow>
            (textValue = [] \<or> (\<exists>pre suf. haystack P f = pre @ ?q @ suf))"
    unfolding main by simp
  have "applyFilters P fallas textValue ''ALL'' [] st = Inr (text_filter P ?q fallas)"
    by (simp add: applyFilters_def status_filter_def section_filter_def getSelectedSections_def)
  then have app: "applyFilters P fallas textValue ''ALL'' [] st
           = Inr (filter (\<lambda>f. textValue = [] \<or> (\<exists>pre suf. haystack P f = pre @ ?q @ suf)) fallas)"
    using main by simp
  show ?thesis using each main app by (intro conjI)
qed

theorem text_predicate_witness:
  "haystack test_platform falla_plaza = ''plaza 1 1a'' \<and>
   normalize_str test_platform ''Za 1'' = ''za 1'' \<and>
   text_filter test_platform (normalize_str test_platform ''Za 1'') [falla_plaza, falla_mercado]
     = [falla_plaza] \<and>
   text_filter test_platform (normalize_str test_platform []) [falla_plaza, falla_mercado]
     = [falla_plaza, falla_mercado]"
proof -
  have e: "normalize_str test_platform [] = []"
    by (simp add: normalize_str_def test_platform_def)
  have h: "haystack test_platform falla_plaza = ''plaza 1 1a''"
    by (simp add: haystack_def normalize_str_def test_platform_def falla_plaza_def ascii_lower_def)
  have hm: "haystack test_platform falla_mercado = ''mercado 12 e''"
    by (simp add: haystack_def normalize_str_def test_platform_def falla_mercado_def ascii_lower_def)
  have q: "normalize_str test_platform ''Za 1'' = ''za 1''"
    by (simp add: normalize_str_def test_platform_def ascii_lower_def)
  have p: "\<exists>pre suf. haystack test_platform falla_plaza = pre @ normalize_str test_platform ''Za 1'' @ suf"
  proof -
    have "''plaza 1 1a'' = ''pla'' @ ''za 1'' @ '' 1a''" by simp
    then show ?thesis unfolding h q by blast
  qed
  have m: "\<not> (\<exists>pre suf. haystack test_platform falla_mercado = pre @ normalize_str test_platform ''Za 1'' @ suf)"
    unfolding hm q js_includes_iff [symmetric] by simp
  have a: "text_filter test_platform (normalize_str test_platform ''Za 1'') [falla_plaza, falla_mercado]
     = [falla_plaza]"
    using text_predicate [OF e, where textValue = "''Za 1''" and fallas = "[falla_plaza, falla_mercado]"]
      p m by simp
  have b: "text_filter test_platform (normalize_str test_platform []) [falla_plaza, falla_mercado]
     = [falla_plaza, falla_mercado]"
    using text_predicate [OF e, where textValue = "[]" and fallas = "[falla_plaza, falla_mercado]"]
    by simp
  show ?thesis using h q a b by (intro conjI)
qed

text \<open>
  The text \<open>a11\<close> is in the plain concatenation \<open>plaza11a\<close> of the falla with name
  Plaza, number 1 and section 1A, and not in its haystack \<open>plaza 1 1a\<close>: the filter
  drops the falla.
\<close>

theorem plain_concatenation_counterexample:
  "(\<exists>pre suf.
      normalize_str test_platform
        (to_string test_platform (name falla_plaza) @ to_string test_platform (falla_number falla_plaza)
           @ to_string test_platform (section' falla_plaza))
        = pre @ normalize_str test_platform ''a11'' @ suf) \<and>
   haystack test_platform falla_plaza = ''plaza 1 1a'' \<and>
   text_filter test_platform (normalize_str test_platform ''a11'') [falla_plaza] = [] \<and>
   applyFilters test_platform [falla_plaza] ''a11'' ''ALL'' [] Missing = Inr []"
proof -
  have n: "normalize_str test_platform
        (to_string test_platform (name falla_plaza) @ to_string test_platform (falla_number falla_plaza)
           @ to_string test_platform (section' falla_plaza)) = ''plaza11a''"
    by (simp add: normalize_str_def test_platform_def falla_plaza_def ascii_lower_def)
  have q: "normalize_str test_platform ''a11'' = ''a11''"
    by (simp add: normalize_str_def test_platform_def ascii_lower_def)
  have "''plaza11a'' = ''plaz'' @ ''a11'' @ ''a''" by simp
  then have a: "\<exists>pre suf.
      normalize_str test_platform
        (to_string test_platform (name falla_plaza) @ to_string test_platform (falla_number falla_plaza)
           @ to_string test_platform (section' falla_plaza))
        = pre @ normalize_str test_platform ''a11'' @ suf"
    unfolding n q by blast
  have h: "haystack test_platform falla_plaza = ''plaza 1 1a''"
    by (simp add: haystack_def normalize_str_def test_platform_def falla_plaza_def ascii_lower_def)
  have t: "text_filter test_platform (normalize_str test_platform ''a11'') [falla_plaza] = []"
    unfolding q by (simp add: text_filter_def h)
  have f: "applyFilters test_platform [falla_plaza] ''a11'' ''ALL'' [] Missing = Inr []"
    using t by (simp add: applyFilters_def status_filter_def section_filter_def getSelectedSections_def)
  show ?thesis using a h t f by (intro conjI)
qed

text \<open>
  C9. The handler of a section checkbox puts every section back when none is left checked
  (lemma \<open>section_click_keeps_selection\<close>). The handler of \<open>sec_all\<close> does not: a
  click that unchecks it unchecks every section, the selection is the empty list, and the
  filter keeps no falla where all sections selected keep them all.
\<close>

theorem click_all_empties_selection:
  "click_all \<lparr>sec_cbs = [(''1A'', True), (''E'', True)], all_cb = True\<rparr>
     = \<lparr>sec_cbs = [(''1A'', False), (''E'', False)], all_cb = False\<rparr> \<and>
   getSelectedSections [(''1A'', False), (''E'', False)] = Sections [] \<and>
   applyFilters test_platform [falla_plaza, falla_mercado] [] ''ALL''
       [(''1A'', False), (''E'', False)] Missing = Inr [] \<and>
   applyFilters test_platform [falla_plaza, falla_mercado] [] ''ALL''
       [(''1A'', True), (''E'', True)] Missing = Inr [falla_plaza, falla_mercado]"
  by (simp add: click_all_def all_changed_def getSelectedSections_def applyFilters_def
      status_filter_def text_filter_def section_filter_def normalize_str_def test_platform_def
      falla_plaza_def falla_mercado_def Let_def)

text \<open>
  C10. Every stop of the returned route is one of the candidates, and no candidate is taken
  more often than the candidate list holds it: the route is a sub-multiset of the
  candidates. So the stops are among the candidates, the route is no longer than the
  candidate list, and candidates that are pairwise different give a route whose stops are
  pairwise different. This holds for every origin, candidate list and budget.
\<close>

theorem route_drawn_from_candidates:
  "mset (route (buildOptimizedRoute distanceMeters add origin points maxMeters)) \<subseteq># mset points \<and>
   set (route (buildOptimizedRoute distanceMeters add origin points maxMeters)) \<subseteq> set points \<and>
   length (route (buildOptimizedRoute distanceMeters add origin points maxMeters)) \<le> length points \<and>
   (distinct points \<longrightarrow>
      distinct (route (buildOptimizedRoute distanceMeters add origin points maxMeters)))"
proof -
  let ?r = "route (buildOptimizedRoute distanceMeters add origin points maxMeters)"
  have sub: "mset ?r \<subseteq># mset points"
    using route_loop_mset [of distanceMeters add maxMeters origin points "[]" "Fin 0"]
    by (simp add: route_buildOptimizedRoute)
  have s: "set ?r \<subseteq> set points" using set_mset_mono [OF sub] by simp
  have l: "length ?r \<le> length points" using size_mset_mono [OF sub] by simp
  have d: "distinct ?r" if "distinct points"
    using sub that by (rule distinct_mset_sub)
  show ?thesis using sub s l d by blast
qed

theorem route_drawn_from_candidates_witness:
  "distinct [0, 111, 1111 :: real] \<and>
   route (buildOptimizedRoute line_distance exact_add 0 [0, 111, 1111] (Fin 150)) = [0, 111] \<and>
   distinct (route (buildOptimizedRoute line_distance exact_add 0 [0, 111, 1111] (Fin 150))) \<and>
   mset (route (buildOptimizedRoute line_distance exact_add 0 [0, 111, 1111] (Fin 150)))
     \<subseteq># mset [0, 111, 1111]"
proof -
  have d: "distinct [0, 111, 1111 :: real]" by simp
  have run: "route (buildOptimizedRoute line_distance exact_add 0 [0, 111, 1111] (Fin 150)) = [0, 111]"
    by (simp add: buildOptimizedRoute_def route_loop.simps nearest_def line_distance_def splice1_def
      budgeted_def js_gt_def Let_def)
  note inst = route_drawn_from_candidates [of line_distance exact_add 0 "[0, 111, 1111]" "Fin 150"]
  from inst have sub: "mset (route (buildOptimizedRoute line_distance exact_add 0 [0, 111, 1111] (Fin 150)))
     \<subseteq># mset [0, 111, 1111]" by (rule conjunct1)
  from inst d have dr: "distinct (route (buildOptimizedRoute line_distance exact_add 0 [0, 111, 1111] (Fin 150)))"
    by blast
  show ?thesis using d run dr sub by (intro conjI)
qed

end
